theory Spec2Isabelle
  imports Main
begin

section \<open>The harvester of logstash-forwarder (harvester.go)\<close>

text \<open>
  A shallow embedding of \<^verbatim>\<open>harvester.go\<close>: the methods \<^verbatim>\<open>open\<close>, \<^verbatim>\<open>read\<close>,
  \<^verbatim>\<open>readline\<close> and \<^verbatim>\<open>Harvest\<close> of \<^verbatim>\<open>Harvester\<close>, with the file system, the
  clock and the two channels made explicit.

  \<^item> Bytes are \<open>char\<close>s (8 bits each), a byte slice and a Go string are \<open>string\<close>s.
    A nil slice and an empty slice are both \<open>[]\<close>: the code only tests
    \<^verbatim>\<open>segment != nil && len(segment) > 0\<close>. A nil \<^verbatim>\<open>*string\<close> is \<open>None\<close>.
  \<^item> \<^verbatim>\<open>int64\<close>, \<^verbatim>\<open>uint64\<close>, \<^verbatim>\<open>int\<close> and \<^verbatim>\<open>time.Duration\<close> values are
    unbounded integers: every offset and size is a count of bytes held in a file or in
    memory, the line number counts emitted events and durations are nanoseconds of
    running time, so none of them comes near \<open>2^63\<close>.
  \<^item> The file system is a script \<open>fs\<close>: the \<open>k\<close>-th call of \<^verbatim>\<open>read\<close> observes
    the snapshot \<open>fs k\<close> (the content of the file at that moment, whether it can be
    opened and read, and how long the call takes). The clock and the number of reads
    made so far are the \<open>world\<close>.
  \<^item> A channel is the list of the values sent on it; a send appends. The receiver is
    taken to accept every value.
  \<^item> \<^verbatim>\<open>emit\<close> only writes a log line and is left out.
  \<^item> \<^verbatim>\<open>options.tailOnRotate\<close>, a global declared outside this file, is the
    parameter \<open>tail\<close>. \<^verbatim>\<open>FileConfig\<close> and \<^verbatim>\<open>FileEvent\<close> are declared outside
    this file too; they are records of the fields this file uses.
\<close>

subsection \<open>Data\<close>

abbreviation LF :: char where "LF \<equiv> CHR 0x0A"
abbreviation CR :: char where "CR \<equiv> CHR 0x0D"

text \<open>\<^verbatim>\<open>time.Second\<close>, in nanoseconds.\<close>

definition second :: int where
  "second = 1000000000"

text \<open>\<^verbatim>\<open>os.FileInfo\<close>: the size, and whether the mode is that of a regular file.\<close>

record FileInfo =
  Size :: int
  Regular :: bool

record FileConfig =
  deadtime :: int
  Fields :: "(string \<times> string) list"

text \<open>
  \<^verbatim>\<open>FileEvent\<close>. \<^verbatim>\<open>Source\<close>, \<^verbatim>\<open>Fields\<close> and \<^verbatim>\<open>fileinfo\<close> are pointers in the
  source; what they point to is never written after the event is built (\<^verbatim>\<open>h.info\<close>
  is pointed at a fresh \<^verbatim>\<open>info\<close> by every \<^verbatim>\<open>read\<close>), so the event holds the values.
  \<^verbatim>\<open>Text\<close> is the \<^verbatim>\<open>*string\<close> that \<^verbatim>\<open>readline\<close> returned. The fields
  \<^verbatim>\<open>Offset\<close> and \<^verbatim>\<open>Fields\<close> are \<open>ev_Offset\<close> and \<open>ev_Fields\<close> here.
\<close>

record FileEvent =
  Source :: string
  ev_Offset :: int
  Line :: nat
  Text :: "string option"
  ev_Fields :: "(string \<times> string) list"
  fileinfo :: "FileInfo option"

text \<open>
  \<^verbatim>\<open>Harvester\<close>. \<open>FinishChan\<close> is the list of the offsets sent on the channel,
  \<open>size_h\<close> is the field \<^verbatim>\<open>size\<close>. The field \<^verbatim>\<open>file\<close> is only used inside
  \<^verbatim>\<open>read\<close>, between \<^verbatim>\<open>open\<close> and \<^verbatim>\<open>Close\<close>: the model passes the handle as
  the value \<open>open_file\<close> returns.
\<close>

record Harvester =
  IsTracked :: bool
  Path :: string
  FileConfig :: FileConfig
  Offset :: int
  FinishChan :: "int list"
  size_h :: int
  info :: "FileInfo option"

datatype error = FILE_TRUNCATED | EOF | IOError

text \<open>
  A call either returns or panics. The harvester is mutated in place, so a panic
  leaves it, the world and the buffer as they are at that point: \<open>Panics\<close> carries
  them to the deferred function of \<^verbatim>\<open>Harvest\<close>.
\<close>

datatype ('a, 's) outcome = Returns 'a | Panics 's

subsection \<open>The file system and the clock\<close>

text \<open>
  What one call of \<^verbatim>\<open>read\<close> finds: \<open>open_failures\<close> failed calls of \<^verbatim>\<open>os.Open\<close>
  before the one that succeeds, whether \<^verbatim>\<open>Stat\<close> succeeds, whether the file is a
  regular file, its bytes, a fault of the device (\<open>Some k\<close>: reading fails, with an
  error other than end-of-file, once \<open>k\<close> bytes have been delivered), and the time
  the system calls of this read take, in nanoseconds. For the path \<^verbatim>\<open>-\<close> the bytes
  are those waiting on standard input, which cannot seek; that every \<^verbatim>\<open>read\<close> closes
  the handle it was given, standard input included, is not in the model, where a later
  read of the path \<^verbatim>\<open>-\<close> finds standard input as its snapshot has it. The file does
  not change during one read. An \<^verbatim>\<open>os.Open\<close> that fails for ever, with which \<^verbatim>\<open>open\<close> never
  returns, is not in the model: the number of failures is finite.
\<close>

record snapshot =
  open_failures :: nat
  stat_ok :: bool
  regular :: bool
  content :: string
  rd_fault :: "nat option"
  lag :: nat

record world =
  now :: int
  reads :: nat

definition Sleep :: "int \<Rightarrow> world \<Rightarrow> world" where
  "Sleep d w = w\<lparr>now := now w + d\<rparr>"

text \<open>An open file: its bytes and the position of the next read.\<close>

record File =
  seekable :: bool
  data :: string
  pos :: nat

datatype whence = SEEK_SET | SEEK_CUR | SEEK_END

text \<open>
  \<^verbatim>\<open>(*os.File).Seek\<close>: the new position and the returned offset. A seek on a file
  that cannot seek, or to a negative position, fails: the position stays and the
  returned offset is 0 (the callers drop the error).
\<close>

definition Seek :: "File \<Rightarrow> int \<Rightarrow> whence \<Rightarrow> File \<times> int" where
  "Seek f off wh =
     (let base = (case wh of SEEK_SET \<Rightarrow> 0
                           | SEEK_CUR \<Rightarrow> int (pos f)
                           | SEEK_END \<Rightarrow> int (length (data f)));
          target = base + off
      in if seekable f \<and> 0 \<le> target then (f\<lparr>pos := nat target\<rparr>, target) else (f, 0))"

text \<open>
  \<^verbatim>\<open>bufio.NewReader(h.file).ReadBytes('\n')\<close>: the bytes from the position up to and
  including the first line feed, with no error; or, when there is none, every byte
  that could be read, with the error that stopped the reading.
\<close>

definition ReadBytes :: "snapshot \<Rightarrow> File \<Rightarrow> string \<times> error option" where
  "ReadBytes s f =
     (let rest = drop (pos f) (data f);
          avail = (case rd_fault s of None \<Rightarrow> rest | Some k \<Rightarrow> take k rest)
      in if LF \<in> set avail then (takeWhile (\<lambda>c. c \<noteq> LF) avail @ [LF], None)
         else (avail, Some (case rd_fault s of
                              None \<Rightarrow> EOF
                            | Some k \<Rightarrow> if k < length rest then IOError else EOF)))"

subsection \<open>open\<close>

text \<open>The retry loop of \<^verbatim>\<open>open\<close>: five seconds of sleep for every failed \<^verbatim>\<open>os.Open\<close>.\<close>

fun open_retry :: "nat \<Rightarrow> world \<Rightarrow> world" where
  "open_retry 0 w = w"
| "open_retry (Suc n) w = open_retry n (Sleep (5 * second) w)"

text \<open>
  \<^verbatim>\<open>mustBeRegularFile\<close>. The handle is not nil (\<^verbatim>\<open>os.Open\<close> succeeded); a failing
  \<^verbatim>\<open>Stat\<close> and a file that is not regular both panic.
\<close>

definition mustBeRegularFile :: "snapshot \<Rightarrow> (unit, unit) outcome" where
  "mustBeRegularFile s =
     (if \<not> stat_ok s then Panics ()
      else if \<not> regular s then Panics ()
      else Returns ())"

definition open_file ::
  "bool \<Rightarrow> snapshot \<Rightarrow> Harvester \<Rightarrow> world
     \<Rightarrow> (File \<times> Harvester \<times> world, Harvester \<times> world) outcome" where
  "open_file tail s h w =
     (if Path h = ''-'' then
        Returns (\<lparr>seekable = False, data = content s, pos = 0\<rparr>, h, w)
      else
        let w1 = open_retry (open_failures s) w;
            f = \<lparr>seekable = True, data = content s, pos = 0\<rparr>
        in case mustBeRegularFile s of
             Panics _ \<Rightarrow> Panics (h, w1)
           | Returns _ \<Rightarrow>
               if IsTracked h then
                 Returns (fst (Seek f (Offset h) SEEK_SET), h, w1)
               else if tail then
                 (let (f', off) = Seek f 0 SEEK_END
                  in Returns (f', h\<lparr>Offset := off, IsTracked := True\<rparr>, w1))
               else
                 (let (f', off) = Seek f 0 SEEK_SET
                  in Returns (f', h\<lparr>Offset := off, IsTracked := True\<rparr>, w1)))"

subsection \<open>read\<close>

text \<open>
  One chunk. The deferred function that stores \<^verbatim>\<open>h.size\<close> and \<^verbatim>\<open>h.info\<close> is
  registered before the size is compared, so it runs on both returns. Its arguments
  are evaluated when it is registered: with a failed \<^verbatim>\<open>Stat\<close> the \<^verbatim>\<open>info\<close> is nil
  and \<^verbatim>\<open>info.Size()\<close> panics.
\<close>

definition read ::
  "(nat \<Rightarrow> snapshot) \<Rightarrow> bool \<Rightarrow> Harvester \<Rightarrow> world \<Rightarrow> nat
     \<Rightarrow> ((string \<times> error option) \<times> Harvester \<times> world, Harvester \<times> world) outcome" where
  "read fs tail h w offset =
     (let s = fs (reads w);
          w0 = w\<lparr>now := now w + int (lag s), reads := reads w + 1\<rparr>
      in case open_file tail s h w0 of
           Panics p \<Rightarrow> Panics p
         | Returns (f, h1, w1) \<Rightarrow>
             if \<not> stat_ok s then Panics (h1, w1)
             else
               let inf = \<lparr>Size = int (length (content s)), Regular = regular s\<rparr>;
                   h2 = h1\<lparr>size_h := Size inf, info := Some inf\<rparr>
               in if Size inf < size_h h1 then Returns (([], Some FILE_TRUNCATED), h2, w1)
                  else Returns (ReadBytes s (fst (Seek f (int offset) SEEK_CUR)), h2, w1))"

subsection \<open>readline\<close>

text \<open>
  The loop of \<^verbatim>\<open>readline\<close>. Its state is the harvester, the world, the buffer and
  the locals \<^verbatim>\<open>is_partial\<close> and \<^verbatim>\<open>newline_length\<close>; \<open>start\<close> is \<^verbatim>\<open>start_time\<close>.
  The result is the text, the byte count and the error, with the harvester, the world
  and the buffer as the call leaves them. Slicing the buffer panics when the bound
  \<^verbatim>\<open>bufferSize-newline_length\<close> is negative.
\<close>

type_synonym rl_result =
  "((string option \<times> nat \<times> error option) \<times> Harvester \<times> world \<times> string,
    Harvester \<times> world \<times> string) outcome"

function readline_loop ::
  "(nat \<Rightarrow> snapshot) \<Rightarrow> bool \<Rightarrow> int \<Rightarrow> int \<Rightarrow> Harvester \<Rightarrow> world \<Rightarrow> string \<Rightarrow> bool \<Rightarrow> nat
     \<Rightarrow> rl_result" where
  "readline_loop fs tail start eof_timeout h w buffer is_partial newline_length =
     (case read fs tail h w (length buffer) of
        Panics (hp, wp) \<Rightarrow> Panics (hp, wp, buffer)
      | Returns ((segment, err), h', w') \<Rightarrow>
          let complete = (segment \<noteq> [] \<and> last segment = LF);
              is_partial' = (if complete then False else is_partial);
              newline_length' =
                (if complete \<and> length segment > 1 \<and> segment ! (length segment - 2) = CR
                 then newline_length + 1 else newline_length);
              buffer' = (if segment \<noteq> [] then buffer @ segment else buffer)
          in case err of
               Some e \<Rightarrow>
                 if e = EOF \<and> is_partial' then
                   (let w'' = Sleep (1 * second) w'
                    in if now w'' - start > eof_timeout
                       then Returns ((None, 0, Some e), h', w'', buffer')
                       else readline_loop fs tail start eof_timeout h' w''
                              buffer' is_partial' newline_length')
                 else Returns ((None, 0, Some e), h', w', buffer')
             | None \<Rightarrow>
                 if \<not> is_partial' then
                   (let bufferSize = length buffer'
                    in if bufferSize < newline_length' then Panics (h', w', buffer')
                       else Returns ((Some (take (bufferSize - newline_length') buffer'),
                                      bufferSize, None), h', w', []))
                 else readline_loop fs tail start eof_timeout h' w'
                        buffer' is_partial' newline_length')"
  by pat_completeness auto

text \<open>
  The loop ends: an iteration that does not return has slept a second, and it only
  goes round again while the clock has not passed \<open>start + eof_timeout\<close>. (A read
  that returns no error has found a line feed, so the last branch is never taken.)
\<close>

termination readline_loop
proof -
  have retry: "now w \<le> now (open_retry n w)" for n w
  proof (induction n arbitrary: w)
    case 0
    show ?case by simp
  next
    case (Suc n)
    have "now w \<le> now (Sleep (5 * second) w)" by (simp add: Sleep_def second_def)
    also have "\<dots> \<le> now (open_retry n (Sleep (5 * second) w))" by (rule Suc.IH)
    finally show ?case by simp
  qed
  have clock: "now w \<le> now w'"
    if "read fs tail h w n = Returns (r, h', w')" for fs tail h w n r h' w'
    using that retry [of "w\<lparr>now := now w + int (lag (fs (reads w))), reads := reads w + 1\<rparr>"
                         "open_failures (fs (reads w))"]
    by (auto simp: read_def open_file_def Let_def
             split: outcome.splits if_splits prod.splits)
  have complete: "seg \<noteq> [] \<and> last seg = LF"
    if "read fs tail h w n = Returns ((seg, None), h', w')" for fs tail h w n seg h' w'
    using that
    by (auto simp: read_def ReadBytes_def Let_def
             split: outcome.splits if_splits prod.splits option.splits)
  show ?thesis
  proof (relation "measure (\<lambda>(fs, tail, start, eof_timeout, h, w, buffer, is_partial, nl).
                     nat (start + eof_timeout + 1 - now w))", goal_cases)
    case 1
    show ?case by simp
  next
    case (2 fs tail start eof_timeout h w buffer is_partial nl x1 x y seg err h' w'
            complete' is_partial' nl' buffer')
    then have "read fs tail h w (length buffer) = Returns ((seg, None), h', w')"
      by auto
    from complete [OF this] 2 show ?case
      by simp
  next
    case (3 fs tail start eof_timeout h w buffer is_partial nl x1 x y seg err h' w'
            complete' is_partial' nl' buffer' e w'')
    then have "read fs tail h w (length buffer) = Returns ((seg, err), h', w')"
      by auto
    then have "now w \<le> now w'"
      by (rule clock)
    moreover have "now w'' = now w' + second"
      using 3 by (simp add: Sleep_def)
    moreover have "now w'' \<le> start + eof_timeout"
      using 3 by simp
    ultimately show ?case
      by (simp add: second_def)
  qed
qed

declare readline_loop.simps [simp del]

definition readline ::
  "(nat \<Rightarrow> snapshot) \<Rightarrow> bool \<Rightarrow> Harvester \<Rightarrow> world \<Rightarrow> string \<Rightarrow> int \<Rightarrow> rl_result" where
  "readline fs tail h w buffer eof_timeout =
     readline_loop fs tail (now w) eof_timeout h w buffer True 1"

subsection \<open>Harvest\<close>

text \<open>
  The state of the loop of \<^verbatim>\<open>Harvest\<close>: the harvester, the world, the locals
  \<^verbatim>\<open>buffer\<close>, \<^verbatim>\<open>line\<close> and \<^verbatim>\<open>last_read_time\<close>, and \<open>out\<close>, the events sent
  on the channel \<^verbatim>\<open>output\<close>.
\<close>

record hstate =
  hv :: Harvester
  wld :: world
  buffer :: string
  line :: nat
  last_read_time :: int
  out :: "FileEvent list"

text \<open>
  How an iteration leaves the loop: it goes round again (\<open>Running\<close>), or \<^verbatim>\<open>Harvest\<close>
  returns because the file is dead or because of an unexpected error, or it panics.
\<close>

datatype status = Running | Dead | Aborted | Panicked

text \<open>\<^verbatim>\<open>read_timeout\<close>, ten seconds.\<close>

definition read_timeout :: int where
  "read_timeout = 10 * second"

text \<open>One iteration of the loop of \<^verbatim>\<open>Harvest\<close>.\<close>

definition Harvest_body :: "(nat \<Rightarrow> snapshot) \<Rightarrow> bool \<Rightarrow> hstate \<Rightarrow> status \<times> hstate" where
  "Harvest_body fs tail s =
     (case readline fs tail (hv s) (wld s) (buffer s) read_timeout of
        Panics (h, w, buf) \<Rightarrow> (Panicked, s\<lparr>hv := h, wld := w, buffer := buf\<rparr>)
      | Returns ((text, bytesread, err), h, w, buf) \<Rightarrow>
          let s1 = s\<lparr>hv := h, wld := w, buffer := buf\<rparr>
          in case err of
               Some e \<Rightarrow>
                 if e = FILE_TRUNCATED then (Running, s1\<lparr>hv := h\<lparr>Offset := 0\<rparr>\<rparr>)
                 else if e = EOF then
                   (if now w - last_read_time s > deadtime (FileConfig h)
                    then (Dead, s1) else (Running, s1))
                 else (Aborted, s1)
             | None \<Rightarrow>
                 let line' = line s + 1;
                     event = \<lparr>Source = Path h, ev_Offset = Offset h, Line = line',
                              Text = text,
                              ev_Fields = Fields (FileConfig h), fileinfo = info h\<rparr>
                 in (Running,
                     s1\<lparr>hv := h\<lparr>Offset := Offset h + int bytesread\<rparr>,
                        line := line', last_read_time := now w, out := out s @ [event]\<rparr>))"

text \<open>
  The loop, for at most \<open>fuel\<close> iterations: the status is \<open>Running\<close> when the loop
  has not been left after that many.
\<close>

fun Harvest_loop :: "(nat \<Rightarrow> snapshot) \<Rightarrow> bool \<Rightarrow> nat \<Rightarrow> hstate \<Rightarrow> status \<times> hstate" where
  "Harvest_loop fs tail 0 s = (Running, s)"
| "Harvest_loop fs tail (Suc n) s =
     (case Harvest_body fs tail s of
        (Running, s') \<Rightarrow> Harvest_loop fs tail n s'
      | (st, s') \<Rightarrow> (st, s'))"

text \<open>
  The state in which \<^verbatim>\<open>Harvest\<close> enters its loop: an empty buffer, no line counted,
  and \<^verbatim>\<open>last_read_time\<close> the time of the call.
\<close>

definition Harvest_init :: "Harvester \<Rightarrow> world \<Rightarrow> FileEvent list \<Rightarrow> hstate" where
  "Harvest_init h w output_ch =
     \<lparr>hv = h, wld = w, buffer = [], line = 0, last_read_time = now w, out = output_ch\<rparr>"

text \<open>
  \<^verbatim>\<open>Harvest\<close>. The deferred function sends \<^verbatim>\<open>h.Offset\<close> on \<^verbatim>\<open>FinishChan\<close> when
  the body is left, by a return or by a panic.
\<close>

definition Harvest ::
  "(nat \<Rightarrow> snapshot) \<Rightarrow> bool \<Rightarrow> nat \<Rightarrow> Harvester \<Rightarrow> world \<Rightarrow> FileEvent list
     \<Rightarrow> status \<times> hstate" where
  "Harvest fs tail fuel h w output_ch =
     (let (st, s) = Harvest_loop fs tail fuel (Harvest_init h w output_ch)
      in if st = Running then (st, s)
         else (st, s\<lparr>hv := (hv s)\<lparr>FinishChan := FinishChan (hv s) @ [Offset (hv s)]\<rparr>\<rparr>))"

subsection \<open>Vocabulary of the properties\<close>

text \<open>
  \<open>line_result fs start T buf res\<close> describes what a line read that started at time
  \<open>start\<close> with the budget \<open>T\<close> and the buffer \<open>buf\<close> may return: the \<open>info\<close> of
  the harvester is that of the last snapshot read; without an error the buffer is
  reset and the text \<open>t\<close> holds no line feed, is followed in the bytes consumed
  (the old buffer and what was read) by a terminator \<open>eol\<close> of one or two bytes, and
  the byte count is the length of both; with an error the text is nil, the byte count
  is 0, the buffer still holds no line feed, and an end-of-file error comes only after
  more than \<open>T\<close> has passed since \<open>start\<close>.
\<close>

definition line_result ::
  "(nat \<Rightarrow> snapshot) \<Rightarrow> int \<Rightarrow> int \<Rightarrow> string
     \<Rightarrow> (string option \<times> nat \<times> error option) \<times> Harvester \<times> world \<times> string \<Rightarrow> bool" where
  "line_result fs start T buf res =
     (case res of ((text, n, err), h', w', buf') \<Rightarrow>
        0 < reads w' \<and>
        info h' = Some \<lparr>Size = int (length (content (fs (reads w' - 1)))),
                        Regular = regular (fs (reads w' - 1))\<rparr> \<and>
        (case err of
           None \<Rightarrow>
             buf' = [] \<and>
             (\<exists>t eol. text = Some t \<and> LF \<notin> set t \<and> (eol = [LF] \<or> eol = [CR, LF]) \<and>
                      n = length t + length eol \<and> (\<exists>rest. buf @ rest = t @ eol))
         | Some e \<Rightarrow>
             text = None \<and> n = 0 \<and> LF \<notin> set buf' \<and> (e = EOF \<longrightarrow> T < now w' - start)))"

text \<open>
  An offset is just after an event when it is the offset of the event plus the length
  of its text plus a terminator of one or two bytes. An event follows another when its
  offset is just after the other one, or 0 (a truncation came between them).
\<close>

definition just_after :: "int \<Rightarrow> FileEvent \<Rightarrow> bool" where
  "just_after off e =
     (case Text e of
        None \<Rightarrow> False
      | Some t \<Rightarrow> off = ev_Offset e + int (length t) + 1 \<or>
                  off = ev_Offset e + int (length t) + 2)"

definition follows :: "FileEvent \<Rightarrow> FileEvent \<Rightarrow> bool" where
  "follows e e' = (ev_Offset e' = 0 \<or> just_after (ev_Offset e') e)"

text \<open>
  \<open>harvested fs s0 s evs\<close>: the loop, started in the state \<open>s0\<close>, has reached \<open>s\<close>
  and has sent the events \<open>evs\<close>. They are numbered from the line counter of \<open>s0\<close>,
  carry the path and the fields of the harvester, a text without line feed and the
  \<open>info\<close> of a snapshot that has been read; each follows the one before; and the
  offset of the harvester is just after the last one, or 0.
\<close>

definition harvested :: "(nat \<Rightarrow> snapshot) \<Rightarrow> hstate \<Rightarrow> hstate \<Rightarrow> FileEvent list \<Rightarrow> bool" where
  "harvested fs s0 s evs =
     (out s = out s0 @ evs \<and>
      line s = line s0 + length evs \<and>
      map Line evs = [Suc (line s0)..<Suc (line s0 + length evs)] \<and>
      list_all (\<lambda>e. Source e = Path (hv s0) \<and> ev_Fields e = Fields (FileConfig (hv s0)) \<and>
                     (\<exists>t. Text e = Some t \<and> LF \<notin> set t) \<and>
                     (\<exists>k<reads (wld s). fileinfo e =
                        Some \<lparr>Size = int (length (content (fs k))), Regular = regular (fs k)\<rparr>)) evs \<and>
      successively follows evs \<and>
      (if evs = [] then Offset (hv s) = Offset (hv s0) \<or> Offset (hv s) = 0
       else (ev_Offset (hd evs) = Offset (hv s0) \<or> ev_Offset (hd evs) = 0) \<and>
            (Offset (hv s) = 0 \<or> just_after (Offset (hv s)) (last evs))))"

text \<open>
  The position of a harvester is decided once it is tracked; for the path \<^verbatim>\<open>-\<close>
  there is none to decide.
\<close>

definition positioned :: "Harvester \<Rightarrow> bool" where
  "positioned h = (IsTracked h \<or> Path h = ''-'')"

text \<open>
  \<open>decided fs tail h w\<close> is the harvester \<open>h\<close> with the position that its next open,
  in the world \<open>w\<close>, decides.
\<close>

definition decided :: "(nat \<Rightarrow> snapshot) \<Rightarrow> bool \<Rightarrow> Harvester \<Rightarrow> world \<Rightarrow> Harvester" where
  "decided fs tail h w =
     (if positioned h then h
      else h\<lparr>Offset := (if tail then int (length (content (fs (reads w)))) else 0),
             IsTracked := True\<rparr>)"


text \<open>
  A quiet file: every read finds the same bytes \<open>c\<close> in a regular file that can be
  opened and read. \<open>lines_of ls\<close> is the bytes of the lines \<open>ls\<close>, each followed by
  a line feed, and \<open>chomp l\<close> is the line \<open>l\<close> without the carriage return of a
  CR LF terminator. \<open>ready c h p\<close>: the harvester \<open>h\<close> will read the file \<open>c\<close> from
  position \<open>p\<close> (it is tracked at \<open>p\<close>, or untracked and about to be positioned at
  \<open>p = 0\<close>) and has seen no size above that of \<open>c\<close>.
\<close>

definition quiet :: "(nat \<Rightarrow> snapshot) \<Rightarrow> string \<Rightarrow> bool" where
  "quiet fs c = (\<forall>k. content (fs k) = c \<and> stat_ok (fs k) \<and> regular (fs k) \<and> rd_fault (fs k) = None)"

definition chomp :: "string \<Rightarrow> string" where
  "chomp l = (if l \<noteq> [] \<and> last l = CR then butlast l else l)"

definition lines_of :: "string list \<Rightarrow> string" where
  "lines_of ls = concat (map (\<lambda>l. l @ [LF]) ls)"

definition ready :: "string \<Rightarrow> Harvester \<Rightarrow> nat \<Rightarrow> bool" where
  "ready c h p =
     (Path h \<noteq> ''-'' \<and> size_h h \<le> int (length c) \<and>
      (IsTracked h \<and> Offset h = int p \<or> \<not> IsTracked h \<and> p = 0))"

subsection \<open>Example inputs\<close>

text \<open>
  A file that can be opened and read: \<open>snap c\<close> is the moment at which its bytes are
  \<open>c\<close>. \<open>script xs\<close> is a file system that goes through the moments \<open>xs\<close>, one
  per read, and stays at the last one. \<open>fresh\<close> is a harvester as the orchestrator
  builds it for a file it has not seen, \<open>epoch\<close> the world at the start.
\<close>

definition snap :: "string \<Rightarrow> snapshot" where
  "snap c = \<lparr>open_failures = 0, stat_ok = True, regular = True, content = c,
             rd_fault = None, lag = 0\<rparr>"

definition script :: "snapshot list \<Rightarrow> nat \<Rightarrow> snapshot" where
  "script xs k = (if k < length xs then xs ! k else last xs)"

definition fresh :: Harvester where
  "fresh = \<lparr>IsTracked = False, Path = ''/var/log/syslog'',
            FileConfig = \<lparr>deadtime = 15 * second, Fields = [(''type'', ''syslog'')]\<rparr>,
            Offset = 0, FinishChan = [], size_h = 0, info = None\<rparr>"

definition epoch :: world where
  "epoch = \<lparr>now = 0, reads = 0\<rparr>"

text \<open>
  \<open>two_lines\<close>: a quiet file of two lines, the first ended by CR LF, and the start
  of a third. \<open>partial_only\<close>: a quiet file that holds the start of a line.
  \<open>faulty\<close>: a file whose device fails at the second read.
\<close>

definition two_lines :: "nat \<Rightarrow> snapshot" where
  "two_lines = script [snap (''ab'' @ [CR, LF] @ ''cd'' @ [LF] @ ''ef'')]"



text \<open>
  \<open>truncation_script\<close>: a file that holds eleven bytes without a line feed, is
  truncated and rewritten with one short line, and then grows. \<open>split_crlf\<close> and
  \<open>split_lf\<close>: the line \<^verbatim>\<open>ab\<close>, ended by CR LF or by LF, whose line feed is written
  after the first read.
\<close>

definition truncation_script :: "nat \<Rightarrow> snapshot" where
  "truncation_script =
     script [snap ''hello world'',
             snap (''ab'' @ [LF]),
             snap (''ab'' @ [LF] @ ''cd'' @ [LF] @ ''efghiJKL'' @ [LF])]"

definition split_crlf :: "nat \<Rightarrow> snapshot" where
  "split_crlf = script [snap (''ab'' @ [CR]), snap (''ab'' @ [CR, LF])]"

definition split_lf :: "nat \<Rightarrow> snapshot" where
  "split_lf = script [snap ''ab'', snap (''ab'' @ [LF])]"

text \<open>
  \<open>crlf_late\<close>: the line \<^verbatim>\<open>x\<close> and a second line \<^verbatim>\<open>cd\<close> ended by CR LF, whose line
  feed is written after the second read. \<open>crlf_whole\<close>: the same file, complete from
  the start.
\<close>

definition crlf_late :: "nat \<Rightarrow> snapshot" where
  "crlf_late = script [snap (''x'' @ [LF] @ ''cd'' @ [CR]),
                       snap (''x'' @ [LF] @ ''cd'' @ [CR]),
                       snap (''x'' @ [LF] @ ''cd'' @ [CR, LF])]"

definition crlf_whole :: "nat \<Rightarrow> snapshot" where
  "crlf_whole = script [snap (''x'' @ [LF] @ ''cd'' @ [CR, LF])]"

section \<open>Properties\<close>

subsection \<open>What a read and a line read leave unchanged\<close>

lemma Harvest_init_simps [simp]:
  "hv (Harvest_init h w outp) = h" "wld (Harvest_init h w outp) = w"
  "buffer (Harvest_init h w outp) = []" "line (Harvest_init h w outp) = 0"
  "last_read_time (Harvest_init h w outp) = now w" "out (Harvest_init h w outp) = outp"
  by (simp_all add: Harvest_init_def)

lemma open_retry_now: "now w \<le> now (open_retry n w)"
proof (induction n arbitrary: w)
  case 0
  show ?case by simp
next
  case (Suc n)
  have "now w \<le> now (Sleep (5 * second) w)" by (simp add: Sleep_def second_def)
  also have "\<dots> \<le> now (open_retry n (Sleep (5 * second) w))" by (rule Suc.IH)
  finally show ?case by simp
qed

lemma open_retry_reads: "reads (open_retry n w) = reads w"
  by (induction n arbitrary: w) (simp_all add: Sleep_def)

lemma ReadBytes_None:
  "ReadBytes s f = (seg, None) \<Longrightarrow> \<exists>l. seg = l @ [LF] \<and> LF \<notin> set l"
  by (auto simp: ReadBytes_def Let_def split: if_splits dest: set_takeWhileD)

lemma ReadBytes_Some:
  "ReadBytes s f = (seg, Some e) \<Longrightarrow> LF \<notin> set seg \<and> e \<noteq> FILE_TRUNCATED"
  by (auto simp: ReadBytes_def Let_def split: if_splits option.splits)

lemma open_file_frame:
  assumes "open_file tail s h w = Returns (f, h', w')"
  shows "Path h' = Path h" and "FileConfig h' = FileConfig h" and "FinishChan h' = FinishChan h"
    and "size_h h' = size_h h" and "info h' = info h"
    and "now w \<le> now w'" and "reads w' = reads w"
    and "IsTracked h \<Longrightarrow> h' = h"
    and "Path h \<noteq> ''-'' \<Longrightarrow> IsTracked h'"
  using assms open_retry_now [of w "open_failures s"]
  by (auto simp: open_file_def Let_def Seek_def open_retry_reads
           split: if_splits outcome.splits prod.splits)

lemma read_frame:
  assumes "read fs tail h w n = Returns ((seg, err), h', w')"
  shows "Path h' = Path h" and "FileConfig h' = FileConfig h" and "FinishChan h' = FinishChan h"
    and "now w \<le> now w'" and "reads w' = Suc (reads w)"
    and "IsTracked h \<Longrightarrow> IsTracked h' \<and> Offset h' = Offset h"
    and "Path h \<noteq> ''-'' \<Longrightarrow> IsTracked h'"
proof -
  let ?s = "fs (reads w)"
  let ?w0 = "w\<lparr>now := now w + int (lag ?s), reads := reads w + 1\<rparr>"
  from assms obtain f h1 where
    op: "open_file tail ?s h ?w0 = Returns (f, h1, w')" and
    h': "h' = h1\<lparr>size_h := int (length (content ?s)),
                   info := Some \<lparr>Size = int (length (content ?s)), Regular = regular ?s\<rparr>\<rparr>"
    by (auto simp: read_def Let_def split: outcome.splits if_splits)
  note fr = open_file_frame [OF op]
  show "Path h' = Path h" "FileConfig h' = FileConfig h" "FinishChan h' = FinishChan h"
    using fr h' by simp_all
  show "now w \<le> now w'" using fr(6) by simp
  show "reads w' = Suc (reads w)" using fr(7) by simp
  show "IsTracked h \<Longrightarrow> IsTracked h' \<and> Offset h' = Offset h" using fr(8) h' by simp
  show "Path h \<noteq> ''-'' \<Longrightarrow> IsTracked h'" using fr(9) h' by simp
qed

lemma read_segment:
  assumes "read fs tail h w n = Returns ((seg, err), h', w')"
  shows "err = None \<Longrightarrow> \<exists>l. seg = l @ [LF] \<and> LF \<notin> set l"
    and "err \<noteq> None \<Longrightarrow> LF \<notin> set seg"
  using assms
  by (auto simp: read_def Let_def split: outcome.splits if_splits
           dest: ReadBytes_None ReadBytes_Some)



lemma read_Panics:
  assumes "read fs tail h w n = Panics (h', w')"
  shows "h' = h" and "now w \<le> now w'" and "reads w' = Suc (reads w)"
  using assms
    open_retry_now [of "w\<lparr>now := now w + int (lag (fs (reads w))), reads := reads w + 1\<rparr>"
                       "open_failures (fs (reads w))"]
  by (auto simp: read_def open_file_def mustBeRegularFile_def Let_def Seek_def open_retry_reads
           split: outcome.splits if_splits prod.splits)

lemma readline_loop_Panics:
  "read fs tail h w (length buf) = Panics (hp, wp) \<Longrightarrow>
   readline_loop fs tail start T h w buf ip nl = Panics (hp, wp, buf)"
  by (subst readline_loop.simps) simp

lemma readline_loop_step:
  assumes rd: "read fs tail h w (length buf) = Returns ((seg, e), h1, w1)"
  shows "readline_loop fs tail start T h w buf True nl =
     (case e of
        None \<Rightarrow>
          if length (buf @ seg) <
               (if length seg > 1 \<and> seg ! (length seg - 2) = CR then nl + 1 else nl)
          then Panics (h1, w1, buf @ seg)
          else
          Returns ((Some (take (length (buf @ seg) -
                      (if length seg > 1 \<and> seg ! (length seg - 2) = CR then nl + 1 else nl))
                      (buf @ seg)),
                    length (buf @ seg), None), h1, w1, [])
      | Some x \<Rightarrow>
          if x = EOF then
            (if now w1 + second - start > T
             then Returns ((None, 0, Some EOF), h1, Sleep second w1, buf @ seg)
             else readline_loop fs tail start T h1 (Sleep second w1) (buf @ seg) True nl)
          else Returns ((None, 0, Some x), h1, w1, buf @ seg))"
proof (cases e)
  case None
  with read_segment(1) [OF rd] obtain l where "seg = l @ [LF]" by auto
  with None rd show ?thesis
    by (subst readline_loop.simps) (simp add: Let_def)
next
  case (Some x)
  with read_segment(2) [OF rd] have "LF \<notin> set seg" by simp
  then have "\<not> (seg \<noteq> [] \<and> last seg = LF)"
    using last_in_set by metis
  with Some rd show ?thesis
    by (subst readline_loop.simps) (auto simp: Let_def Sleep_def)
qed

lemma readline_loop_induct [consumes 1, case_names line timeout error retry]:
  assumes run: "readline_loop fs tail start T h w buf True nl = Returns res"
    and line: "\<And>h w buf seg h1 w1.
       read fs tail h w (length buf) = Returns ((seg, None), h1, w1) \<Longrightarrow>
       \<not> length (buf @ seg) <
           (if length seg > 1 \<and> seg ! (length seg - 2) = CR then nl + 1 else nl) \<Longrightarrow>
       P h w buf ((Some (take (length (buf @ seg) -
                      (if length seg > 1 \<and> seg ! (length seg - 2) = CR then nl + 1 else nl))
                      (buf @ seg)),
                    length (buf @ seg), None), h1, w1, [])"
    and timeout: "\<And>h w buf seg h1 w1.
       read fs tail h w (length buf) = Returns ((seg, Some EOF), h1, w1) \<Longrightarrow>
       now w1 + second - start > T \<Longrightarrow>
       P h w buf ((None, 0, Some EOF), h1, Sleep second w1, buf @ seg)"
    and error: "\<And>h w buf seg e h1 w1.
       read fs tail h w (length buf) = Returns ((seg, Some e), h1, w1) \<Longrightarrow> e \<noteq> EOF \<Longrightarrow>
       P h w buf ((None, 0, Some e), h1, w1, buf @ seg)"
    and retry: "\<And>h w buf seg h1 w1 res.
       read fs tail h w (length buf) = Returns ((seg, Some EOF), h1, w1) \<Longrightarrow>
       \<not> now w1 + second - start > T \<Longrightarrow>
       readline_loop fs tail start T h1 (Sleep second w1) (buf @ seg) True nl = Returns res \<Longrightarrow>
       P h1 (Sleep second w1) (buf @ seg) res \<Longrightarrow> P h w buf res"
  shows "P h w buf res"
  using run
proof (induction "nat (start + T + 1 - now w)" arbitrary: h w buf rule: less_induct)
  case less
  show ?case
  proof (cases "read fs tail h w (length buf)")
    case (Panics p)
    then obtain hp wp where "read fs tail h w (length buf) = Panics (hp, wp)"
      by (cases p) auto
    from readline_loop_Panics [OF this] less.prems show ?thesis by simp
  next
    case (Returns x)
    then obtain seg e h1 w1 where
      rd: "read fs tail h w (length buf) = Returns ((seg, e), h1, w1)"
      by (cases x) auto
    note step = readline_loop_step [OF rd, of start T nl]
    show ?thesis
    proof (cases e)
      case None
      with step less.prems line [of h w buf seg h1 w1] rd show ?thesis
        by (simp split: if_splits)
    next
      case (Some x)
      show ?thesis
      proof (cases "x = EOF")
        case False
        with Some step less.prems error [of h w buf seg x h1 w1] rd show ?thesis by simp
      next
        case True
        show ?thesis
        proof (cases "now w1 + second - start > T")
          case True
          with \<open>x = EOF\<close> Some step less.prems timeout [of h w buf seg h1 w1] rd
          show ?thesis by simp
        next
          case False
          with \<open>x = EOF\<close> Some step less.prems
          have next_run: "readline_loop fs tail start T h1 (Sleep second w1) (buf @ seg) True nl
                            = Returns res"
            by simp
          have "now w \<le> now w1" using read_frame(4) [OF rd] .
          with False have "nat (start + T + 1 - now (Sleep second w1)) < nat (start + T + 1 - now w)"
            by (simp add: Sleep_def second_def)
          from less.hyps [OF this next_run]
          have "P h1 (Sleep second w1) (buf @ seg) res" .
          from retry [OF _ False next_run this] rd \<open>x = EOF\<close> Some show ?thesis by simp
        qed
      qed
    qed
  qed
qed

lemma readline_loop_frame_aux:
  assumes "readline_loop fs tail start T h w buf True nl = Returns res"
  shows "case res of (r, h', w', buf') \<Rightarrow>
     Path h' = Path h \<and> FileConfig h' = FileConfig h \<and> FinishChan h' = FinishChan h \<and>
     now w \<le> now w' \<and> reads w < reads w' \<and>
     (IsTracked h \<longrightarrow> IsTracked h' \<and> Offset h' = Offset h) \<and>
     (Path h \<noteq> ''-'' \<longrightarrow> IsTracked h')"
  using assms
proof (induction h w buf res rule: readline_loop_induct)
  case (line h w buf seg h1 w1)
  from read_frame [OF line(1)] show ?case by simp
next
  case (timeout h w buf seg h1 w1)
  from read_frame [OF timeout(1)] show ?case by (auto simp: Sleep_def second_def)
next
  case (error h w buf seg e h1 w1)
  from read_frame [OF error(1)] show ?case by simp
next
  case (retry h w buf seg h1 w1 res)
  from read_frame [OF retry(1)] retry(4) show ?case
    by (auto simp: Sleep_def second_def split: prod.splits)
qed

lemma read_info:
  assumes "read fs tail h w n = Returns ((seg, err), h', w')"
  shows "size_h h' = int (length (content (fs (reads w))))"
    and "info h' = Some \<lparr>Size = int (length (content (fs (reads w)))),
                         Regular = regular (fs (reads w))\<rparr>"
  using assms by (auto simp: read_def Let_def split: outcome.splits if_splits)

lemma line_result_append:
  assumes "line_result fs start T (buf @ seg) res"
  shows "line_result fs start T buf res"
proof -
  have "\<exists>rest. buf @ rest = x" if "\<exists>rest. (buf @ seg) @ rest = x" for x :: string
    using that by auto
  with assms show ?thesis
    unfolding line_result_def
    by (simp split: prod.splits option.splits) blast
qed

lemma readline_loop_result:
  assumes "readline_loop fs tail start T h w buf True 1 = Returns res"
  shows "LF \<notin> set buf \<longrightarrow> line_result fs start T buf res"
  using assms
proof (induction h w buf res rule: readline_loop_induct)
  case (line h w buf seg h1 w1)
  from read_segment(1) [OF line(1)] obtain l where seg: "seg = l @ [LF]" and l: "LF \<notin> set l"
    by auto
  note fr = read_frame(5) [OF line(1)] read_info(2) [OF line(1)]
  have cut: "take (length (buf @ seg) - k) (buf @ seg) = t"
    if "buf @ seg = t @ eol" "length eol = k" for t eol k
    using that by simp
  let ?nl = "if length seg > 1 \<and> seg ! (length seg - 2) = CR then (1::nat) + 1 else 1"
  show ?case
  proof (cases "length seg > 1 \<and> seg ! (length seg - 2) = CR")
    case True
    with seg have ne: "l \<noteq> []" and "l ! (length l - 1) = CR"
      by (auto simp: nth_append)
    then have "last l = CR" by (simp add: last_conv_nth)
    with ne have l': "l = butlast l @ [CR]" by (metis append_butlast_last_id)
    have nolf: "LF \<notin> set (butlast l)" using l by (meson in_set_butlastD)
    have full: "buf @ seg = (buf @ butlast l) @ [CR, LF]"
      using seg l' by (metis append.assoc append_Cons append_Nil)
    have nl: "?nl = 2" using True by simp
    have tk: "take (length (buf @ seg) - ?nl) (buf @ seg) = buf @ butlast l"
      unfolding nl by (rule cut [OF full]) simp
    have len: "length (buf @ seg) = length (buf @ butlast l) + 2"
      unfolding full by simp
    show ?thesis
      unfolding tk unfolding len line_result_def using fr nolf
      by (auto intro!: exI [of _ "[CR, LF]"])
  next
    case False
    have full: "buf @ seg = (buf @ l) @ [LF]" using seg by simp
    have nl: "?nl = 1" using False by simp
    have tk: "take (length (buf @ seg) - ?nl) (buf @ seg) = buf @ l"
      unfolding nl by (rule cut [OF full]) simp
    have len: "length (buf @ seg) = length (buf @ l) + 1"
      unfolding full by simp
    show ?thesis
      unfolding tk unfolding len line_result_def using fr l
      by (auto intro!: exI [of _ "[LF]"])
  qed
next
  case (timeout h w buf seg h1 w1)
  from read_segment(2) [OF timeout(1)] read_frame(5) [OF timeout(1)] read_info(2) [OF timeout(1)]
    timeout(2)
  show ?case by (auto simp: line_result_def Sleep_def)
next
  case (error h w buf seg e h1 w1)
  from read_segment(2) [OF error(1)] read_frame(5) [OF error(1)] read_info(2) [OF error(1)]
    error(2)
  show ?case by (auto simp: line_result_def)
next
  case (retry h w buf seg h1 w1 res)
  from read_segment(2) [OF retry(1)] have seg: "LF \<notin> set seg" by simp
  show ?case
  proof
    assume buf: "LF \<notin> set buf"
    with seg retry(4) have r: "line_result fs start T (buf @ seg) res" by simp
    then show "line_result fs start T buf res"
      by (rule line_result_append)
  qed
qed

lemma read_positioned:
  assumes "read fs tail h w n = Returns ((seg, err), h', w')"
  shows "positioned h'" and "positioned h \<Longrightarrow> Offset h' = Offset h"
  using assms
  by (auto simp: positioned_def read_def open_file_def Let_def Seek_def
           split: outcome.splits if_splits prod.splits)

lemma readline_loop_positioned:
  assumes "readline_loop fs tail start T h w buf True nl = Returns res"
  shows "case res of (r, h', w', buf') \<Rightarrow>
           positioned h' \<and> (positioned h \<longrightarrow> Offset h' = Offset h)"
  using assms
proof (induction h w buf res rule: readline_loop_induct)
  case (line h w buf seg h1 w1)
  from read_positioned [OF line(1)] show ?case by simp
next
  case (timeout h w buf seg h1 w1)
  from read_positioned [OF timeout(1)] show ?case by simp
next
  case (error h w buf seg e h1 w1)
  from read_positioned [OF error(1)] show ?case by simp
next
  case (retry h w buf seg h1 w1 res)
  from read_positioned [OF retry(1)] retry(4) show ?case
    by (auto split: prod.splits)
qed

lemma readline_positioned:
  assumes "readline fs tail h w buf T = Returns (r, h', w', buf')"
  shows "positioned h'" and "positioned h \<Longrightarrow> Offset h' = Offset h"
  using readline_loop_positioned [OF assms [unfolded readline_def]] by simp_all

lemma readline_loop_panic_induct [consumes 1, case_names panic slice retry]:
  assumes run: "readline_loop fs tail start T h w buf True nl = Panics res"
    and panic: "\<And>h w buf wp.
       read fs tail h w (length buf) = Panics (h, wp) \<Longrightarrow> P h w buf (h, wp, buf)"
    and slice: "\<And>h w buf seg h1 w1.
       read fs tail h w (length buf) = Returns ((seg, None), h1, w1) \<Longrightarrow>
       length (buf @ seg) <
         (if length seg > 1 \<and> seg ! (length seg - 2) = CR then nl + 1 else nl) \<Longrightarrow>
       P h w buf (h1, w1, buf @ seg)"
    and retry: "\<And>h w buf seg h1 w1 res.
       read fs tail h w (length buf) = Returns ((seg, Some EOF), h1, w1) \<Longrightarrow>
       readline_loop fs tail start T h1 (Sleep second w1) (buf @ seg) True nl = Panics res \<Longrightarrow>
       P h1 (Sleep second w1) (buf @ seg) res \<Longrightarrow> P h w buf res"
  shows "P h w buf res"
  using run
proof (induction "nat (start + T + 1 - now w)" arbitrary: h w buf rule: less_induct)
  case less
  show ?case
  proof (cases "read fs tail h w (length buf)")
    case (Panics p)
    then obtain hp wp where rd: "read fs tail h w (length buf) = Panics (hp, wp)"
      by (cases p) auto
    from read_Panics(1) [OF rd] have "hp = h" .
    with readline_loop_Panics [OF rd] less.prems panic [of h w buf wp] rd show ?thesis by simp
  next
    case (Returns x)
    then obtain seg e h1 w1 where
      rd: "read fs tail h w (length buf) = Returns ((seg, e), h1, w1)"
      by (cases x) auto
    note step = readline_loop_step [OF rd, of start T nl]
    show ?thesis
    proof (cases e)
      case None
      with step less.prems slice [of h w buf seg h1 w1] rd show ?thesis
        by (simp split: if_splits)
    next
      case (Some x)
      with step less.prems have eof: "x = EOF" and late: "\<not> now w1 + second - start > T"
        and next_run: "readline_loop fs tail start T h1 (Sleep second w1) (buf @ seg) True nl
                         = Panics res"
        by (simp_all split: if_splits)
      have "now w \<le> now w1" using read_frame(4) [OF rd] .
      with late have "nat (start + T + 1 - now (Sleep second w1)) < nat (start + T + 1 - now w)"
        by (simp add: Sleep_def second_def)
      from less.hyps [OF this next_run]
      have "P h1 (Sleep second w1) (buf @ seg) res" .
      from retry [OF _ next_run this] rd eof Some show ?thesis by simp
    qed
  qed
qed

lemma readline_loop_panic_frame:
  assumes "readline_loop fs tail start T h w buf True nl = Panics res"
  shows "case res of (h', w', buf') \<Rightarrow>
     Path h' = Path h \<and> FileConfig h' = FileConfig h \<and> FinishChan h' = FinishChan h \<and>
     now w \<le> now w' \<and> reads w < reads w' \<and>
     (IsTracked h \<longrightarrow> IsTracked h') \<and>
     (positioned h \<longrightarrow> positioned h' \<and> Offset h' = Offset h)"
  using assms
proof (induction h w buf res rule: readline_loop_panic_induct)
  case (panic h w buf wp)
  from read_Panics [OF panic] show ?case by simp
next
  case (slice h w buf seg h1 w1)
  from read_frame [OF slice(1)] read_positioned [OF slice(1)] show ?case
    by auto
next
  case (retry h w buf seg h1 w1 res)
  from read_frame [OF retry(1)] read_positioned [OF retry(1)] retry(3)
  show ?case
    by (auto simp: Sleep_def second_def split: prod.splits)
qed

lemma readline_loop_panic_buffer:
  assumes "readline_loop fs tail start T h w buf True 1 = Panics res"
  shows "case res of (h', w', buf') \<Rightarrow>
     (LF \<notin> set buf \<longrightarrow> LF \<notin> set buf') \<and>
     (h' = h \<and> buf' = buf \<or> positioned h')"
  using assms
proof (induction h w buf res rule: readline_loop_panic_induct)
  case (panic h w buf wp)
  show ?case by simp
next
  case (slice h w buf seg h1 w1)
  from read_segment(1) [OF slice(1)] obtain l where "seg = l @ [LF]" by auto
  with slice(2) show ?case by (simp split: if_splits)
next
  case (retry h w buf seg h1 w1 res)
  from read_positioned(1) [OF retry(1)] read_segment(2) [OF retry(1)] retry(3)
  show ?case
    by (auto split: prod.splits)
qed

lemma readline_Panics:
  assumes "readline fs tail h w buf T = Panics (h', w', buf')"
  shows "Path h' = Path h" and "FileConfig h' = FileConfig h" and "FinishChan h' = FinishChan h"
    and "now w \<le> now w'" and "reads w < reads w'"
    and "IsTracked h \<Longrightarrow> IsTracked h'"
    and "positioned h \<Longrightarrow> positioned h' \<and> Offset h' = Offset h"
    and "LF \<notin> set buf \<Longrightarrow> LF \<notin> set buf'"
    and "h' = h \<and> buf' = buf \<or> positioned h'"
  using readline_loop_panic_frame [OF assms [unfolded readline_def]]
    readline_loop_panic_buffer [OF assms [unfolded readline_def]]
  by simp_all

lemma readline_frame:
  assumes "readline fs tail h w buf T = Returns (r, h', w', buf')"
  shows "Path h' = Path h" and "FileConfig h' = FileConfig h" and "FinishChan h' = FinishChan h"
    and "now w \<le> now w'" and "reads w < reads w'"
    and "IsTracked h \<Longrightarrow> IsTracked h' \<and> Offset h' = Offset h"
    and "Path h \<noteq> ''-'' \<Longrightarrow> IsTracked h'"
  using readline_loop_frame_aux [OF assms [unfolded readline_def]] by simp_all

lemma Harvest_body_frame:
  assumes "Harvest_body fs tail s = (st, s')"
  shows "Path (hv s') = Path (hv s)" and "FileConfig (hv s') = FileConfig (hv s)"
    and "FinishChan (hv s') = FinishChan (hv s)"
    and "IsTracked (hv s) \<Longrightarrow> IsTracked (hv s')"
proof -
  show "Path (hv s') = Path (hv s)" "FileConfig (hv s') = FileConfig (hv s)"
    "FinishChan (hv s') = FinishChan (hv s)"
    using assms
    by (auto simp: Harvest_body_def Let_def
             split: outcome.splits prod.splits option.splits if_splits
             dest: readline_frame(1,2,3) readline_Panics(1,2,3))
  show "IsTracked (hv s) \<Longrightarrow> IsTracked (hv s')"
    using assms
    by (auto simp: Harvest_body_def Let_def
             split: outcome.splits prod.splits option.splits if_splits
             dest: readline_frame(6) readline_Panics(6))
qed

lemma Harvest_loop_frame:
  assumes "Harvest_loop fs tail n s = (st, s')"
  shows "Path (hv s') = Path (hv s) \<and> FileConfig (hv s') = FileConfig (hv s) \<and>
         FinishChan (hv s') = FinishChan (hv s) \<and> (IsTracked (hv s) \<longrightarrow> IsTracked (hv s'))"
  using assms
proof (induction n arbitrary: s)
  case 0
  then show ?case by simp
next
  case (Suc n)
  obtain st1 s1 where body: "Harvest_body fs tail s = (st1, s1)"
    by (cases "Harvest_body fs tail s")
  note fr = Harvest_body_frame [OF body]
  show ?case
  proof (cases "st1 = Running")
    case True
    with Suc.prems body have "Harvest_loop fs tail n s1 = (st, s')" by simp
    from Suc.IH [OF this] fr show ?thesis by simp
  next
    case False
    with Suc.prems body have "s' = s1" by (cases st1) simp_all
    with fr show ?thesis by simp
  qed
qed

lemma readline_result:
  assumes "readline fs tail h w buf T = Returns res" and "LF \<notin> set buf"
  shows "line_result fs (now w) T buf res"
  using readline_loop_result [OF assms(1) [unfolded readline_def]] assms(2) by simp

text \<open>The iteration of the loop of Harvest, by the result of the line read.\<close>

lemma Harvest_body_Panics:
  "readline fs tail (hv s) (wld s) (buffer s) read_timeout = Panics (h, w, buf) \<Longrightarrow>
   Harvest_body fs tail s = (Panicked, s\<lparr>hv := h, wld := w, buffer := buf\<rparr>)"
  by (simp add: Harvest_body_def)

lemma Harvest_body_error:
  assumes "readline fs tail (hv s) (wld s) (buffer s) read_timeout
             = Returns ((text, n, Some e), h, w, buf)"
  shows "Harvest_body fs tail s =
           (if e = FILE_TRUNCATED then Running
            else if e = EOF then
              (if now w - last_read_time s > deadtime (FileConfig h) then Dead else Running)
            else Aborted,
            s\<lparr>hv := (if e = FILE_TRUNCATED then h\<lparr>Offset := 0\<rparr> else h), wld := w, buffer := buf\<rparr>)"
  using assms by (simp add: Harvest_body_def Let_def)

lemma Harvest_body_line:
  assumes "readline fs tail (hv s) (wld s) (buffer s) read_timeout
             = Returns ((text, n, None), h, w, buf)"
  shows "Harvest_body fs tail s =
           (Running,
            s\<lparr>hv := h\<lparr>Offset := Offset h + int n\<rparr>, wld := w, buffer := buf,
              line := line s + 1, last_read_time := now w,
              out := out s @ [\<lparr>Source = Path h, ev_Offset = Offset h, Line = line s + 1,
                                Text = text, ev_Fields = Fields (FileConfig h),
                                fileinfo = info h\<rparr>]\<rparr>)"
  using assms by (simp add: Harvest_body_def Let_def)

subsection \<open>The events of a run\<close>

lemma harvested_start: "harvested fs s0 s0 []"
  by (simp add: harvested_def)

lemma harvested_step:
  assumes inv: "harvested fs s0 s evs"
    and fr: "Path (hv s) = Path (hv s0)" "FileConfig (hv s) = FileConfig (hv s0)"
    and pos: "positioned (hv s)" and buf: "LF \<notin> set (buffer s)"
    and body: "Harvest_body fs tail s = (st, s')"
  shows "\<exists>evs'. harvested fs s0 s' evs' \<and> positioned (hv s') \<and> LF \<notin> set (buffer s') \<and>
           reads (wld s) \<le> reads (wld s')"
proof (cases "readline fs tail (hv s) (wld s) (buffer s) read_timeout")
  case (Panics p)
  obtain hp wp bp where p: "p = (hp, wp, bp)" by (cases p) auto
  note rl = Panics [unfolded p]
  note frp = readline_Panics [OF rl]
  from Harvest_body_Panics [OF rl] body
  have s': "s' = s\<lparr>hv := hp, wld := wp, buffer := bp\<rparr>" by simp
  have "harvested fs s0 s' evs"
    using inv frp(5,7) pos unfolding harvested_def s' list_all_iff
    by (auto split: if_splits intro: less_trans)
  with frp(5,7,8) pos buf show ?thesis by (auto simp: s')
next
  case (Returns res)
  obtain tx n err h w b where res: "res = ((tx, n, err), h, w, b)"
    by (cases res) auto
  note rl = Returns [unfolded res]
  from readline_result [OF Returns buf] have lr: "line_result fs (now (wld s)) read_timeout (buffer s) res" .
  note frl = readline_frame [OF rl] readline_positioned [OF rl]
  have off: "Offset h = Offset (hv s)" using frl(9) pos by simp
  have rd: "reads (wld s) < reads w" using frl(5) .
  have old: "list_all (\<lambda>e. Source e = Path (hv s0) \<and> ev_Fields e = Fields (FileConfig (hv s0)) \<and>
                     (\<exists>t. Text e = Some t \<and> LF \<notin> set t) \<and>
                     (\<exists>k<reads w. fileinfo e =
                        Some \<lparr>Size = int (length (content (fs k))), Regular = regular (fs k)\<rparr>)) evs"
    using inv rd unfolding harvested_def list_all_iff
    by (meson less_trans)
  show ?thesis
  proof (cases err)
    case (Some e)
    from lr have b: "LF \<notin> set b" by (simp add: line_result_def res Some)
    from Harvest_body_error [OF rl [unfolded Some]] body
    have s': "s' = s\<lparr>hv := (if e = FILE_TRUNCATED then h\<lparr>Offset := 0\<rparr> else h), wld := w, buffer := b\<rparr>"
      by simp
    have "harvested fs s0 s' evs"
      using inv old off unfolding harvested_def s'
      by (auto split: if_splits)
    moreover have "positioned (hv s')" using frl(8) by (simp add: s' positioned_def)
    ultimately show ?thesis using b rd by (auto simp: s')
  next
    case None
    from lr obtain t eol where t: "tx = Some t" "LF \<notin> set t" "eol = [LF] \<or> eol = [CR, LF]"
        "n = length t + length eol" and b: "b = []"
      and inf: "info h = Some \<lparr>Size = int (length (content (fs (reads w - 1)))),
                               Regular = regular (fs (reads w - 1))\<rparr>" and rw: "0 < reads w"
      by (auto simp: line_result_def res None)
    let ?e = "\<lparr>Source = Path h, ev_Offset = Offset h, Line = line s + 1,
                Text = tx, ev_Fields = Fields (FileConfig h), fileinfo = info h\<rparr>"
    from Harvest_body_line [OF rl [unfolded None]] body
    have s': "s' = s\<lparr>hv := h\<lparr>Offset := Offset h + int n\<rparr>, wld := w, buffer := b,
                     line := line s + 1, last_read_time := now w, out := out s @ [?e]\<rparr>"
      by simp
    have ja: "just_after (Offset h + int n) ?e"
      using t by (auto simp: just_after_def)
    have new: "Source ?e = Path (hv s0) \<and> ev_Fields ?e = Fields (FileConfig (hv s0)) \<and>
                     (\<exists>t. Text ?e = Some t \<and> LF \<notin> set t) \<and>
                     (\<exists>k<reads w. fileinfo ?e =
                        Some \<lparr>Size = int (length (content (fs k))), Regular = regular (fs k)\<rparr>)"
      using frl(1,2) fr t inf rw by (auto intro!: exI [of _ "reads w - 1"])
    have chain: "successively follows (evs @ [?e])"
      using inv off unfolding harvested_def successively_append_iff
      by (auto simp: follows_def split: if_splits)
    have first: "ev_Offset (hd (evs @ [?e])) = Offset (hv s0) \<or> ev_Offset (hd (evs @ [?e])) = 0"
      using inv off unfolding harvested_def by (cases evs) (auto split: if_splits)
    have "harvested fs s0 s' (evs @ [?e])"
      unfolding harvested_def s'
      using inv old new chain first ja
      by (simp add: harvested_def)
    moreover have "positioned (hv s')" using frl(8) by (simp add: s' positioned_def)
    ultimately show ?thesis using b rd by (auto simp: s')
  qed
qed

lemma harvested_loop:
  assumes "Harvest_loop fs tail n s = (st, s')"
    and "harvested fs s0 s evs"
    and "Path (hv s) = Path (hv s0)" "FileConfig (hv s) = FileConfig (hv s0)"
    and "positioned (hv s)" and "LF \<notin> set (buffer s)"
  shows "\<exists>evs'. harvested fs s0 s' evs' \<and> positioned (hv s') \<and> LF \<notin> set (buffer s')"
  using assms
proof (induction n arbitrary: s evs)
  case 0
  then show ?case by auto
next
  case (Suc n)
  obtain st1 s1 where body: "Harvest_body fs tail s = (st1, s1)"
    by (cases "Harvest_body fs tail s")
  from harvested_step [OF Suc.prems(2-6) body] obtain evs1 where
    inv1: "harvested fs s0 s1 evs1" "positioned (hv s1)" "LF \<notin> set (buffer s1)"
    by auto
  note fr = Harvest_body_frame [OF body]
  show ?case
  proof (cases "st1 = Running")
    case True
    with Suc.prems(1) body have "Harvest_loop fs tail n s1 = (st, s')" by simp
    from Suc.IH [OF this inv1(1) _ _ inv1(2,3)] fr Suc.prems(3,4) show ?thesis by simp
  next
    case False
    with Suc.prems(1) body have "s' = s1" by (cases st1) simp_all
    with inv1 show ?thesis by auto
  qed
qed

lemma read_decided:
  "read fs tail (decided fs tail h w) w n =
     (case read fs tail h w n of
        Panics (hp, wp) \<Rightarrow> Panics (decided fs tail h w, wp)
      | Returns r \<Rightarrow> Returns r)"
  by (auto simp: decided_def positioned_def read_def open_file_def Let_def Seek_def
                 mustBeRegularFile_def
           split: outcome.splits)

lemma readline_decided:
  "readline fs tail (decided fs tail h w) w buf T =
     (case read fs tail h w (length buf) of
        Panics (hp, wp) \<Rightarrow> Panics (decided fs tail h w, wp, buf)
      | Returns r \<Rightarrow> readline fs tail h w buf T)"
  unfolding readline_def
  by (subst (1 2) readline_loop.simps) (auto simp: read_decided split: outcome.splits)

lemma decided_frame:
  "Path (decided fs tail h w) = Path h" "FileConfig (decided fs tail h w) = FileConfig h"
  "FinishChan (decided fs tail h w) = FinishChan h" "positioned (decided fs tail h w)"
  by (simp_all add: decided_def positioned_def)

text \<open>
  An iteration from a harvester whose position is not decided is the iteration from
  the decided one, unless its first read panics: then it has changed nothing but the
  world.
\<close>

lemma Harvest_body_decided:
  assumes "Harvest_body fs tail s = (st, s')"
  shows "Harvest_body fs tail (s\<lparr>hv := decided fs tail (hv s) (wld s)\<rparr>) = (st, s') \<or>
         st = Panicked \<and> s' = s\<lparr>wld := wld s'\<rparr>"
proof (cases "read fs tail (hv s) (wld s) (length (buffer s))")
  case (Panics p)
  then obtain hp wp where rd: "read fs tail (hv s) (wld s) (length (buffer s)) = Panics (hp, wp)"
    by (cases p) auto
  from read_Panics(1) [OF rd] have "hp = hv s" .
  with readline_loop_Panics [OF rd, of "now (wld s)" read_timeout True 1] assms
  have "st = Panicked \<and> s' = s\<lparr>wld := wp\<rparr>"
    by (auto simp: Harvest_body_def readline_def)
  then have "st = Panicked \<and> s' = s\<lparr>wld := wld s'\<rparr>" by simp
  then show ?thesis ..
next
  case (Returns r)
  then have "readline fs tail (decided fs tail (hv s) (wld s)) (wld s) (buffer s) read_timeout
               = readline fs tail (hv s) (wld s) (buffer s) read_timeout"
    by (simp add: readline_decided)
  with assms show ?thesis
    by (auto simp: Harvest_body_def Let_def
             split: outcome.splits prod.splits option.splits if_splits)
qed

lemma Harvest_loop_decided:
  assumes "Harvest_loop fs tail n s = (st, s')"
  shows "n = 0 \<and> s' = s \<or> st = Panicked \<and> s' = s\<lparr>wld := wld s'\<rparr> \<or>
         Harvest_loop fs tail n (s\<lparr>hv := decided fs tail (hv s) (wld s)\<rparr>) = (st, s')"
proof (cases n)
  case 0
  with assms show ?thesis by simp
next
  case (Suc m)
  obtain st1 s1 where body: "Harvest_body fs tail s = (st1, s1)"
    by (cases "Harvest_body fs tail s")
  from Harvest_body_decided [OF body]
  consider "Harvest_body fs tail (s\<lparr>hv := decided fs tail (hv s) (wld s)\<rparr>) = (st1, s1)"
    | "st1 = Panicked" "s1 = s\<lparr>wld := wld s1\<rparr>"
    by blast
  then show ?thesis
  proof cases
    case 1
    with body assms Suc show ?thesis by simp
  next
    case 2
    with body assms Suc have "st = Panicked" "s' = s1" by simp_all
    with 2 show ?thesis by simp
  qed
qed

lemma Harvest_loop_harvested:
  assumes run: "Harvest_loop fs tail n s0 = (st, s)" and buf: "LF \<notin> set (buffer s0)"
  shows "(n = 0 \<or> st = Panicked) \<and> s = s0\<lparr>wld := wld s\<rparr> \<or>
         (\<exists>evs. harvested fs (s0\<lparr>hv := decided fs tail (hv s0) (wld s0)\<rparr>) s evs \<and>
                positioned (hv s) \<and> LF \<notin> set (buffer s))"
proof -
  let ?s0 = "s0\<lparr>hv := decided fs tail (hv s0) (wld s0)\<rparr>"
  from Harvest_loop_decided [OF run]
  consider "(n = 0 \<or> st = Panicked) \<and> s = s0\<lparr>wld := wld s\<rparr>"
    | "Harvest_loop fs tail n ?s0 = (st, s)"
    by auto
  then show ?thesis
  proof cases
    case 1
    then show ?thesis by simp
  next
    case 2
    have "\<exists>evs'. harvested fs ?s0 s evs' \<and> positioned (hv s) \<and> LF \<notin> set (buffer s)"
      by (rule harvested_loop [OF 2 harvested_start]) (simp_all add: decided_frame buf)
    then show ?thesis by simp
  qed
qed




lemma Harvest_loop_events:
  assumes run: "Harvest_loop fs tail n s0 = (st, s)" and buf: "LF \<notin> set (buffer s0)"
  shows "\<exists>evs. out s = out s0 @ evs \<and> line s = line s0 + length evs \<and>
           LF \<notin> set (buffer s) \<and>
           (if evs = []
            then Offset (hv s) = Offset (hv s0) \<or>
                 Offset (hv s) = Offset (decided fs tail (hv s0) (wld s0)) \<or> Offset (hv s) = 0
            else Offset (hv s) = 0 \<or> just_after (Offset (hv s)) (last evs)) \<and>
           (positioned (hv s) \<or> hv s = hv s0)"
proof -
  from Harvest_loop_harvested [OF run buf]
  consider "s = s0\<lparr>wld := wld s\<rparr>"
    | evs where "harvested fs (s0\<lparr>hv := decided fs tail (hv s0) (wld s0)\<rparr>) s evs"
        "positioned (hv s)" "LF \<notin> set (buffer s)"
    by auto
  then show ?thesis
  proof cases
    case 1
    then have "out s = out s0" "line s = line s0" "buffer s = buffer s0" "hv s = hv s0"
      by (metis hstate.select_convs hstate.surjective hstate.update_convs(2))+
    with buf show ?thesis by (intro exI [of _ "[]"]) simp
  next
    case 2
    then show ?thesis
      unfolding harvested_def
      by (intro exI [of _ evs]) (auto split: if_splits)
  qed
qed


subsection \<open>A quiet file\<close>

lemma read_quiet:
  assumes q: "quiet fs c" and r: "ready c h p"
  shows "\<exists>h' w'. read fs False h w n =
           Returns (ReadBytes (fs (reads w)) \<lparr>seekable = True, data = c, pos = p + n\<rparr>, h', w') \<and>
           ready c h' p \<and> IsTracked h' \<and> size_h h' = int (length c) \<and>
           FileConfig h' = FileConfig h \<and> now w \<le> now w'"
proof -
  let ?s = "fs (reads w)"
  from q have s: "content ?s = c" "stat_ok ?s" "regular ?s"
    by (simp_all add: quiet_def)
  let ?w0 = "w\<lparr>now := now w + int (lag ?s), reads := reads w + 1\<rparr>"
  have "now w \<le> now (open_retry (open_failures ?s) ?w0)"
    using open_retry_now [of ?w0 "open_failures ?s"] by simp
  with r s show ?thesis
    by (auto simp: read_def open_file_def mustBeRegularFile_def Seek_def Let_def ready_def
                   nat_add_distrib)
qed

lemma ReadBytes_line:
  assumes "rd_fault s = None" and "LF \<notin> set l"
  shows "ReadBytes s \<lparr>seekable = True, data = pre @ l @ [LF] @ post, pos = length pre\<rparr>
           = (l @ [LF], None)"
proof -
  have "takeWhile (\<lambda>c. c \<noteq> LF) (l @ LF # post) = l"
    using assms(2) by (induction l) auto
  with assms show ?thesis by (simp add: ReadBytes_def)
qed

lemma ReadBytes_tail:
  assumes "rd_fault s = None" and "LF \<notin> set partial"
  shows "ReadBytes s \<lparr>seekable = True, data = pre @ partial, pos = length pre + j\<rparr>
           = (drop j partial, Some EOF)"
  using assms by (auto simp: ReadBytes_def Let_def dest: in_set_dropD)

lemma take_chomp:
  "take (length (l @ [LF]) -
         (if length (l @ [LF]) > 1 \<and> (l @ [LF]) ! (length (l @ [LF]) - 2) = CR then 1 + 1 else 1))
        (l @ [LF]) = chomp l"
proof (cases "l = []")
  case True
  then show ?thesis by (simp add: chomp_def)
next
  case False
  then have "(l @ [LF]) ! (length (l @ [LF]) - 2) = last l"
    by (simp add: nth_append last_conv_nth)
  with False show ?thesis
    by (simp add: chomp_def butlast_conv_take)
qed

lemma readline_line_quiet:
  assumes q: "quiet fs c" and c: "c = pre @ l @ [LF] @ post" and l: "LF \<notin> set l"
    and r: "ready c h (length pre)"
  shows "\<exists>h' w'. readline fs False h w [] T =
           Returns ((Some (chomp l), length l + 1, None), h', w', []) \<and>
           ready c h' (length pre) \<and> IsTracked h' \<and> FileConfig h' = FileConfig h \<and>
           now w \<le> now w'"
proof -
  from q have nf: "rd_fault (fs (reads w)) = None" by (simp add: quiet_def)
  from read_quiet [OF q r, of w 0] obtain h' w' where
    rd: "read fs False h w (length ([] :: string)) =
           Returns (ReadBytes (fs (reads w)) \<lparr>seekable = True, data = c, pos = length pre\<rparr>, h', w')"
    and h': "ready c h' (length pre)" "IsTracked h'" "FileConfig h' = FileConfig h" "now w \<le> now w'"
    by auto
  from rd ReadBytes_line [OF nf l, of pre post]
  have "read fs False h w (length ([] :: string)) = Returns ((l @ [LF], None), h', w')"
    by (simp add: c)
  from readline_loop_step [OF this, of "now w" T 1] take_chomp [of l]
  have "readline fs False h w [] T = Returns ((Some (chomp l), length l + 1, None), h', w', [])"
    by (simp add: readline_def)
  with h' show ?thesis by blast
qed

lemma readline_tail_quiet:
  assumes q: "quiet fs c" and c: "c = pre @ partial" and l: "LF \<notin> set partial"
    and r: "ready c h (length pre)" and b: "buf = [] \<or> buf = partial"
  shows "\<exists>h' w'. readline_loop fs False start T h w buf True nl =
           Returns ((None, 0, Some EOF), h', w', partial) \<and>
           ready c h' (length pre) \<and> FileConfig h' = FileConfig h \<and>
           T < now w' - start \<and> now w \<le> now w'"
  using r b
proof (induction "nat (start + T + 1 - now w)" arbitrary: h w buf rule: less_induct)
  case less
  from q have nf: "rd_fault (fs (reads w)) = None" by (simp add: quiet_def)
  from less.prems(2) have len: "length pre + length buf = length pre + length buf" 
    and seg: "buf @ drop (length buf) partial = partial"
    by auto
  from read_quiet [OF q less.prems(1), of w "length buf"] obtain h1 w1 where
    rd: "read fs False h w (length buf) =
           Returns (ReadBytes (fs (reads w))
                      \<lparr>seekable = True, data = c, pos = length pre + length buf\<rparr>, h1, w1)"
    and h1: "ready c h1 (length pre)" "FileConfig h1 = FileConfig h" "now w \<le> now w1"
    by auto
  from rd ReadBytes_tail [OF nf l, of pre "length buf"]
  have rd': "read fs False h w (length buf) = Returns ((drop (length buf) partial, Some EOF), h1, w1)"
    by (simp add: c)
  note step = readline_loop_step [OF rd', of start T nl, unfolded seg]
  show ?case
  proof (cases "now w1 + second - start > T")
    case True
    with step h1 show ?thesis
      by (auto simp: Sleep_def second_def)
  next
    case False
    with h1(3) have "nat (start + T + 1 - now (Sleep second w1)) < nat (start + T + 1 - now w)"
      by (simp add: Sleep_def second_def)
    from less.hyps [OF this h1(1), of partial] obtain h' w' where
      "readline_loop fs False start T h1 (Sleep second w1) partial True nl =
         Returns ((None, 0, Some EOF), h', w', partial)"
      "ready c h' (length pre)" "FileConfig h' = FileConfig h1"
      "T < now w' - start" "now (Sleep second w1) \<le> now w'"
      by auto
    with step False h1 show ?thesis
      by (auto simp: Sleep_def second_def)
  qed
qed

lemma Harvest_body_line_quiet:
  assumes q: "quiet fs c" and c: "c = pre @ l @ [LF] @ post" and l: "LF \<notin> set l"
    and r: "ready c (hv s) (length pre)" and b: "buffer s = []"
  shows "\<exists>s' e. Harvest_body fs False s = (Running, s') \<and>
           ready c (hv s') (length (pre @ l @ [LF])) \<and> buffer s' = [] \<and>
           FileConfig (hv s') = FileConfig (hv s) \<and>
           out s' = out s @ [e] \<and> Text e = Some (chomp l)"
proof -
  from readline_line_quiet [OF q c l r, of "wld s" read_timeout] b obtain h' w' where
    rl: "readline fs False (hv s) (wld s) (buffer s) read_timeout =
           Returns ((Some (chomp l), length l + 1, None), h', w', [])"
    and h': "ready c h' (length pre)" "IsTracked h'" "FileConfig h' = FileConfig (hv s)"
    by auto
  from h'(1,2) have "ready c (h'\<lparr>Offset := Offset h' + int (length l + 1)\<rparr>) (length (pre @ l @ [LF]))"
    by (simp add: ready_def)
  with Harvest_body_line [OF rl] h'(3) show ?thesis
    by simp
qed

lemma Harvest_body_tail_quiet:
  assumes q: "quiet fs c" and c: "c = pre @ partial" and l: "LF \<notin> set partial"
    and r: "ready c (hv s) (length pre)" and b: "buffer s = [] \<or> buffer s = partial"
  shows "\<exists>s'. Harvest_body fs False s =
              (if deadtime (FileConfig (hv s)) < now (wld s') - last_read_time s
               then Dead else Running, s') \<and>
           ready c (hv s') (length pre) \<and> buffer s' = partial \<and>
           FileConfig (hv s') = FileConfig (hv s) \<and> out s' = out s \<and>
           last_read_time s' = last_read_time s \<and>
           read_timeout < now (wld s') - now (wld s)"
proof -
  from readline_tail_quiet [OF q c l r b, of "now (wld s)" read_timeout "wld s" 1]
  obtain h' w' where
    rl: "readline fs False (hv s) (wld s) (buffer s) read_timeout =
           Returns ((None, 0, Some EOF), h', w', partial)"
    and h': "ready c h' (length pre)" "FileConfig h' = FileConfig (hv s)"
      "read_timeout < now w' - now (wld s)"
    by (auto simp: readline_def)
  from Harvest_body_error [OF rl] h' show ?thesis
    by simp
qed

lemma Harvest_loop_stable:
  "fst (Harvest_loop fs tail n s) \<noteq> Running \<Longrightarrow>
   Harvest_loop fs tail (n + k) s = Harvest_loop fs tail n s"
proof (induction n arbitrary: s)
  case 0
  then show ?case by simp
next
  case (Suc n)
  obtain st1 s1 where body: "Harvest_body fs tail s = (st1, s1)"
    by (cases "Harvest_body fs tail s")
  show ?case
  proof (cases "st1 = Running")
    case True
    with body Suc.prems have "fst (Harvest_loop fs tail n s1) \<noteq> Running" by simp
    from Suc.IH [OF this] True body show ?thesis by simp
  next
    case False
    with body show ?thesis by (cases st1) simp_all
  qed
qed

lemma Harvest_loop_tail_dead:
  assumes q: "quiet fs c" and c: "c = pre @ partial" and l: "LF \<notin> set partial"
  shows "ready c (hv s) (length pre) \<Longrightarrow> buffer s = [] \<or> buffer s = partial \<Longrightarrow>
         deadtime (FileConfig (hv s)) - (now (wld s) - last_read_time s) \<le> int n * read_timeout \<Longrightarrow>
         fst (Harvest_loop fs False (Suc n) s) = Dead"
proof (induction n arbitrary: s)
  case 0
  from Harvest_body_tail_quiet [OF q c l 0(1,2)] obtain s' where
    body: "Harvest_body fs False s =
              (if deadtime (FileConfig (hv s)) < now (wld s') - last_read_time s
               then Dead else Running, s')"
    and t: "read_timeout < now (wld s') - now (wld s)"
    by auto
  have "0 < read_timeout" by (simp add: read_timeout_def second_def)
  with t 0(3) have "deadtime (FileConfig (hv s)) < now (wld s') - last_read_time s" by simp
  with body show ?case by simp
next
  case (Suc n)
  from Harvest_body_tail_quiet [OF q c l Suc(2,3)] obtain s' where
    body: "Harvest_body fs False s =
              (if deadtime (FileConfig (hv s)) < now (wld s') - last_read_time s
               then Dead else Running, s')"
    and s': "ready c (hv s') (length pre)" "buffer s' = partial"
      "FileConfig (hv s') = FileConfig (hv s)" "last_read_time s' = last_read_time s"
    and t: "read_timeout < now (wld s') - now (wld s)"
    by auto
  show ?case
  proof (cases "deadtime (FileConfig (hv s)) < now (wld s') - last_read_time s")
    case True
    with body show ?thesis by simp
  next
    case False
    have "deadtime (FileConfig (hv s')) - (now (wld s') - last_read_time s') \<le> int n * read_timeout"
      using Suc(4) t s'(3,4) by (simp add: algebra_simps)
    from Suc.IH [OF s'(1) _ this] s'(2) have "fst (Harvest_loop fs False (Suc n) s') = Dead"
      by simp
    with False body show ?thesis by simp
  qed
qed

lemma Harvest_loop_quiet_safe:
  assumes q: "quiet fs c"
  shows "c = pre @ lines_of ls @ partial \<Longrightarrow> \<forall>l\<in>set ls. LF \<notin> set l \<Longrightarrow> LF \<notin> set partial \<Longrightarrow>
         ready c (hv s) (length pre) \<Longrightarrow> buffer s = [] \<or> ls = [] \<and> buffer s = partial \<Longrightarrow>
         \<exists>k evs. k \<le> length ls \<and> out (snd (Harvest_loop fs False n s)) = out s @ evs \<and>
                 map Text evs = map (\<lambda>l. Some (chomp l)) (take k ls) \<and>
                 (fst (Harvest_loop fs False n s) = Running \<or>
                  fst (Harvest_loop fs False n s) = Dead \<and> k = length ls)"
proof (induction n arbitrary: s pre ls)
  case 0
  show ?case by (intro exI [of _ 0] exI [of _ "[]"]) simp
next
  case (Suc n)
  show ?case
  proof (cases ls)
    case Nil
    with Suc.prems have c: "c = pre @ partial" and b: "buffer s = [] \<or> buffer s = partial"
      by (auto simp: lines_of_def)
    from Harvest_body_tail_quiet [OF q c Suc.prems(3,4) b] obtain s' where
      body: "Harvest_body fs False s =
              (if deadtime (FileConfig (hv s)) < now (wld s') - last_read_time s
               then Dead else Running, s')"
      and s': "ready c (hv s') (length pre)" "buffer s' = partial" "out s' = out s"
      by auto
    show ?thesis
    proof (cases "deadtime (FileConfig (hv s)) < now (wld s') - last_read_time s")
      case True
      with body s'(3) Nil show ?thesis
        by (intro exI [of _ 0] exI [of _ "[]"]) simp
    next
      case False
      from Suc.IH [OF Suc.prems(1,2,3) s'(1), of ] s'(2) Nil
      obtain k evs where "k \<le> length ls" "out (snd (Harvest_loop fs False n s')) = out s' @ evs"
        "map Text evs = map (\<lambda>l. Some (chomp l)) (take k ls)"
        "fst (Harvest_loop fs False n s') = Running \<or>
         fst (Harvest_loop fs False n s') = Dead \<and> k = length ls"
        by auto
      with False body s'(3) show ?thesis
        by (intro exI [of _ k] exI [of _ evs]) simp
    qed
  next
    case (Cons l ls')
    with Suc.prems have c: "c = pre @ l @ [LF] @ (lines_of ls' @ partial)" and l: "LF \<notin> set l"
      and b: "buffer s = []"
      by (auto simp: lines_of_def)
    from Harvest_body_line_quiet [OF q c l Suc.prems(4) b] obtain s' e where
      body: "Harvest_body fs False s = (Running, s')"
      and s': "ready c (hv s') (length (pre @ l @ [LF]))" "buffer s' = []"
        "out s' = out s @ [e]" "Text e = Some (chomp l)"
      by auto
    have c': "c = (pre @ l @ [LF]) @ lines_of ls' @ partial" using c by simp
    have ls': "\<forall>l\<in>set ls'. LF \<notin> set l" using Suc.prems(2) Cons by simp
    from Suc.IH [OF c' ls' Suc.prems(3) s'(1)] s'(2)
    obtain k evs where k: "k \<le> length ls'" "out (snd (Harvest_loop fs False n s')) = out s' @ evs"
        "map Text evs = map (\<lambda>l. Some (chomp l)) (take k ls')"
        "fst (Harvest_loop fs False n s') = Running \<or>
         fst (Harvest_loop fs False n s') = Dead \<and> k = length ls'"
      by auto
    with body s'(3,4) Cons show ?thesis
      by (intro exI [of _ "Suc k"] exI [of _ "e # evs"]) simp
  qed
qed

lemma Harvest_loop_quiet_live:
  assumes q: "quiet fs c"
  shows "c = pre @ lines_of ls @ partial \<Longrightarrow> \<forall>l\<in>set ls. LF \<notin> set l \<Longrightarrow> LF \<notin> set partial \<Longrightarrow>
         ready c (hv s) (length pre) \<Longrightarrow> buffer s = [] \<or> ls = [] \<and> buffer s = partial \<Longrightarrow>
         \<exists>n. fst (Harvest_loop fs False n s) = Dead"
proof (induction ls arbitrary: s pre)
  case Nil
  then have c: "c = pre @ partial" and b: "buffer s = [] \<or> buffer s = partial"
    by (auto simp: lines_of_def)
  let ?x = "deadtime (FileConfig (hv s)) - (now (wld s) - last_read_time s)"
  have "?x \<le> int (nat ?x) * read_timeout"
    by (cases "0 \<le> ?x") (simp_all add: read_timeout_def second_def)
  from Harvest_loop_tail_dead [OF q c Nil(3,4) b this] show ?case by blast
next
  case (Cons l ls)
  then have c: "c = pre @ l @ [LF] @ (lines_of ls @ partial)" and l: "LF \<notin> set l"
    and b: "buffer s = []"
    by (auto simp: lines_of_def)
  from Harvest_body_line_quiet [OF q c l Cons.prems(4) b] obtain s' where
    body: "Harvest_body fs False s = (Running, s')"
    and s': "ready c (hv s') (length (pre @ l @ [LF]))" "buffer s' = []"
    by auto
  have c': "c = (pre @ l @ [LF]) @ lines_of ls @ partial" using c by simp
  have ls': "\<forall>l\<in>set ls. LF \<notin> set l" using Cons.prems(2) by simp
  from Cons.IH [OF c' ls' Cons.prems(3) s'(1)] s'(2)
  obtain n where "fst (Harvest_loop fs False n s') = Dead" by auto
  with body have "fst (Harvest_loop fs False (Suc n) s) = Dead" by simp
  then show ?case by blast
qed

subsection \<open>Line integrity\<close>

text \<open>
  Claim C1. The file is quiet and holds the lines \<open>ls\<close>, each ended by a line feed,
  and then the bytes \<open>partial\<close> without a line feed. The harvester is fresh: untracked,
  reading from the start, with no size observed, on a path other than \<^verbatim>\<open>-\<close>. Then, with
  any fuel, the events sent are those of the first \<open>k\<close> lines for some \<open>k\<close>, in the
  order of the file, each text the line without its terminator (LF, or CR LF): no
  event is ever sent for the partial line. And with enough fuel \<^verbatim>\<open>Harvest\<close> returns,
  the file being dead, having sent exactly the events of all the lines.
\<close>

theorem fresh_harvester_emits_terminated_lines:
  assumes q: "quiet fs (lines_of ls @ partial)"
    and ls: "\<forall>l\<in>set ls. LF \<notin> set l" and p: "LF \<notin> set partial"
    and h: "\<not> IsTracked h" "Path h \<noteq> ''-''" "size_h h = 0"
  shows "(\<forall>fuel. \<exists>k evs. k \<le> length ls \<and>
            out (snd (Harvest fs False fuel h w outp)) = outp @ evs \<and>
            map Text evs = map (\<lambda>l. Some (chomp l)) (take k ls)) \<and>
         (\<exists>fuel0. \<forall>fuel\<ge>fuel0. \<exists>evs.
            fst (Harvest fs False fuel h w outp) = Dead \<and>
            out (snd (Harvest fs False fuel h w outp)) = outp @ evs \<and>
            map Text evs = map (\<lambda>l. Some (chomp l)) ls)"
proof -
  let ?c = "lines_of ls @ partial"
  let ?s0 = "Harvest_init h w outp"
  have c: "?c = [] @ lines_of ls @ partial" by simp
  have r: "ready ?c (hv ?s0) (length ([] :: string))" using h by (simp add: ready_def)
  have b: "buffer ?s0 = [] \<or> ls = [] \<and> buffer ?s0 = partial" by simp
  note safe = Harvest_loop_quiet_safe [OF q c ls p r b]
  have out: "out (snd (Harvest fs False n h w outp)) = out (snd (Harvest_loop fs False n ?s0))"
    and st: "fst (Harvest fs False n h w outp) = fst (Harvest_loop fs False n ?s0)" for n
    by (auto simp: Harvest_def Let_def split: prod.splits)
  have first: "\<exists>k evs. k \<le> length ls \<and>
            out (snd (Harvest fs False fuel h w outp)) = outp @ evs \<and>
            map Text evs = map (\<lambda>l. Some (chomp l)) (take k ls)" for fuel
    using safe [of fuel] unfolding out by auto
  from Harvest_loop_quiet_live [OF q c ls p r b] obtain n0 where
    n0: "fst (Harvest_loop fs False n0 ?s0) = Dead" by blast
  have "\<exists>evs. fst (Harvest fs False fuel h w outp) = Dead \<and>
            out (snd (Harvest fs False fuel h w outp)) = outp @ evs \<and>
            map Text evs = map (\<lambda>l. Some (chomp l)) ls" if "n0 \<le> fuel" for fuel
  proof -
    from that obtain k where "fuel = n0 + k" using le_Suc_ex by blast
    with Harvest_loop_stable [of fs False n0 ?s0 k] n0
    have d: "fst (Harvest_loop fs False fuel ?s0) = Dead" by simp
    with safe [of fuel] show ?thesis unfolding out st by auto
  qed
  with first show ?thesis by blast
qed

theorem fresh_harvester_emits_terminated_lines_witness:
  "quiet two_lines (lines_of [''ab'' @ [CR], ''cd''] @ ''ef'') \<and>
   LF \<notin> set (''ab'' @ [CR]) \<and> LF \<notin> set ''cd'' \<and> LF \<notin> set ''ef'' \<and>
   \<not> IsTracked fresh \<and> Path fresh \<noteq> ''-'' \<and> size_h fresh = 0 \<and>
   fst (Harvest two_lines False 4 fresh epoch []) = Dead \<and>
   map Text (out (snd (Harvest two_lines False 4 fresh epoch []))) = [Some ''ab'', Some ''cd''] \<and>
   (\<forall>fuel. length (out (snd (Harvest two_lines False fuel fresh epoch []))) \<le> 2)"
proof -
  have q: "quiet two_lines (lines_of [''ab'' @ [CR], ''cd''] @ ''ef'')"
    by (simp add: quiet_def two_lines_def script_def snap_def lines_of_def)
  have ls: "\<forall>l\<in>set [''ab'' @ [CR], ''cd'']. LF \<notin> set l" and p: "LF \<notin> set ''ef''"
    by simp_all
  have h: "\<not> IsTracked fresh" "Path fresh \<noteq> ''-''" "size_h fresh = 0"
    by (simp_all add: fresh_def)
  have run: "fst (Harvest two_lines False 4 fresh epoch []) = Dead"
    "map Text (out (snd (Harvest two_lines False 4 fresh epoch []))) = [Some ''ab'', Some ''cd'']"
    by code_simp+
  from fresh_harvester_emits_terminated_lines [OF q ls p h, of epoch "[]"]
  have "\<forall>fuel. \<exists>k evs. k \<le> length [''ab'' @ [CR], ''cd''] \<and>
            out (snd (Harvest two_lines False fuel fresh epoch [])) = [] @ evs \<and>
            map Text evs = map (\<lambda>l. Some (chomp l)) (take k [''ab'' @ [CR], ''cd''])"
    by (rule conjunct1)
  then have "length (out (snd (Harvest two_lines False fuel fresh epoch []))) \<le> 2" for fuel
  proof -
    assume "\<forall>fuel. \<exists>k evs. k \<le> length [''ab'' @ [CR], ''cd''] \<and>
            out (snd (Harvest two_lines False fuel fresh epoch [])) = [] @ evs \<and>
            map Text evs = map (\<lambda>l. Some (chomp l)) (take k [''ab'' @ [CR], ''cd''])"
    then obtain k evs where k: "k \<le> length [''ab'' @ [CR], ''cd'']"
      and evs: "out (snd (Harvest two_lines False fuel fresh epoch [])) = [] @ evs"
      and tx: "map Text evs = map (\<lambda>l. Some (chomp l)) (take k [''ab'' @ [CR], ''cd''])"
      by blast
    from tx have "length (map Text evs) = length (take k [''ab'' @ [CR], ''cd''])"
      by (simp only: length_map)
    with k evs show ?thesis by simp
  qed
  with q p h run show ?thesis by simp
qed

subsection \<open>The completion channel\<close>

text \<open>
  Claim C2. When \<^verbatim>\<open>Harvest\<close> is left, whether because the file is dead, because of an
  unexpected read error or by a panic, exactly one value has been appended to
  \<open>FinishChan\<close>, and it is the \<open>Offset\<close> the harvester has at that moment. While the
  loop is still running nothing has been sent.
\<close>

theorem Harvest_pushes_final_offset_once:
  assumes "Harvest fs tail fuel h w outp = (st, s)"
  shows "if st = Running then FinishChan (hv s) = FinishChan h
         else FinishChan (hv s) = FinishChan h @ [Offset (hv s)] \<and>
              st \<in> {Dead, Aborted, Panicked}"
proof -
  let ?s0 = "Harvest_init h w outp"
  obtain s1 where loop: "Harvest_loop fs tail fuel ?s0 = (st, s1)"
    and s: "s = (if st = Running then s1
                 else s1\<lparr>hv := (hv s1)\<lparr>FinishChan := FinishChan (hv s1) @ [Offset (hv s1)]\<rparr>\<rparr>)"
    using assms by (auto simp: Harvest_def Let_def split: prod.splits if_splits)
  from Harvest_loop_frame [OF loop] have "FinishChan (hv s1) = FinishChan h" by simp
  with s show ?thesis by (cases st) simp_all
qed

theorem Harvest_pushes_final_offset_once_witness:
  "fst (Harvest (script [snap (''a'' @ [LF] @ ''b'')]) False 3 fresh epoch []) = Dead \<and>
   FinishChan (hv (snd (Harvest (script [snap (''a'' @ [LF] @ ''b'')]) False 3 fresh epoch []))) = [2] \<and>
   fst (Harvest (script [(snap ''abc'')\<lparr>rd_fault := Some 1\<rparr>]) False 3 fresh epoch []) = Aborted \<and>
   FinishChan (hv (snd (Harvest (script [(snap ''abc'')\<lparr>rd_fault := Some 1\<rparr>]) False 3 fresh
                          epoch []))) = [0]"
proof -
  let ?dead = "Harvest (script [snap (''a'' @ [LF] @ ''b'')]) False 3 fresh epoch []"
  let ?aborted = "Harvest (script [(snap ''abc'')\<lparr>rd_fault := Some 1\<rparr>]) False 3 fresh epoch []"
  have d: "fst ?dead = Dead" and od: "Offset (hv (snd ?dead)) = 2"
    by code_simp+
  have a: "fst ?aborted = Aborted" and oa: "Offset (hv (snd ?aborted)) = 0"
    by code_simp+
  have "?dead = (fst ?dead, snd ?dead)" by simp
  from Harvest_pushes_final_offset_once [OF this] d od
  have "FinishChan (hv (snd ?dead)) = [2]" by (simp add: fresh_def)
  moreover
  have "?aborted = (fst ?aborted, snd ?aborted)" by simp
  from Harvest_pushes_final_offset_once [OF this] a oa
  have "FinishChan (hv (snd ?aborted)) = [0]" by (simp add: fresh_def)
  ultimately show ?thesis using d a by simp
qed

subsection \<open>Truncation and the observed size\<close>

text \<open>
  Claim C6, as the code has it. A read that returns has compared the size of the file
  with \<open>size_h\<close>; when the file is smaller it reports \<open>FILE_TRUNCATED\<close> and no bytes,
  otherwise it does not report a truncation. In both cases \<open>size_h\<close> and \<open>info\<close> hold
  the size just observed: the store is deferred before the comparison, so the read
  that reports the truncation records the new, smaller size too.
\<close>

theorem read_records_observed_size:
  assumes "read fs tail h w n = Returns ((seg, err), h', w')"
  shows "size_h h' = int (length (content (fs (reads w)))) \<and>
         info h' = Some \<lparr>Size = int (length (content (fs (reads w)))),
                         Regular = regular (fs (reads w))\<rparr> \<and>
         (if int (length (content (fs (reads w)))) < size_h h
          then seg = [] \<and> err = Some FILE_TRUNCATED
          else err \<noteq> Some FILE_TRUNCATED)"
proof -
  let ?s = "fs (reads w)"
  let ?w0 = "w\<lparr>now := now w + int (lag ?s), reads := reads w + 1\<rparr>"
  from assms obtain f h1 where
    op: "open_file tail ?s h ?w0 = Returns (f, h1, w')" and ok: "stat_ok ?s"
    by (auto simp: read_def Let_def split: outcome.splits if_splits)
  from open_file_frame(4) [OF op] have sz: "size_h h1 = size_h h" .
  show ?thesis
    using assms op ok sz
    by (auto simp: read_def Let_def split: if_splits dest: ReadBytes_Some)
qed

theorem read_records_observed_size_witness:
  "read (script [snap ''0123456789'', snap ''abcd'']) False fresh epoch 0
     = Returns ((''0123456789'', Some EOF),
                fresh\<lparr>IsTracked := True, size_h := 10,
                      info := Some \<lparr>Size = 10, Regular = True\<rparr>\<rparr>,
                \<lparr>now = 0, reads = 1\<rparr>)
   \<and> size_h (fresh\<lparr>IsTracked := True, size_h := 10,
                    info := Some \<lparr>Size = 10, Regular = True\<rparr>\<rparr>) = 10"
proof -
  have "read (script [snap ''0123456789'', snap ''abcd'']) False fresh epoch 0
     = Returns ((''0123456789'', Some EOF),
                fresh\<lparr>IsTracked := True, size_h := 10,
                      info := Some \<lparr>Size = 10, Regular = True\<rparr>\<rparr>,
                \<lparr>now = 0, reads = 1\<rparr>)"
    by (simp add: read_def open_file_def mustBeRegularFile_def Seek_def ReadBytes_def Let_def
          script_def snap_def fresh_def epoch_def)
  from this read_records_observed_size [OF this] show ?thesis
    by simp
qed

text \<open>
  The claim as it was stated fails: the file held ten bytes at the last read that
  returned data and holds four now; the read reports the truncation and leaves
  \<open>size_h = 4\<close>, not \<open>10\<close>.
\<close>

theorem truncating_read_updates_size:
  "read (script [snap ''0123456789'', snap ''abcd'']) False
        (fresh\<lparr>IsTracked := True, size_h := 10\<rparr>) \<lparr>now = 0, reads = 1\<rparr> 10
     = Returns (([], Some FILE_TRUNCATED),
                fresh\<lparr>IsTracked := True, size_h := 4,
                      info := Some \<lparr>Size = 4, Regular = True\<rparr>\<rparr>,
                \<lparr>now = 0, reads = 2\<rparr>)"
  by (simp add: read_def open_file_def mustBeRegularFile_def Seek_def ReadBytes_def Let_def
        script_def snap_def fresh_def)

subsection \<open>The initial position\<close>

text \<open>
  Claim C8. For a path other than \<^verbatim>\<open>-\<close> and a regular file, \<open>open_file\<close> returns with
  \<open>IsTracked\<close> set. A tracked harvester is left as it is and the file is positioned by
  a seek to \<open>Offset\<close> (position \<open>nat (Offset h)\<close>: a negative offset cannot be sought
  and leaves the position at 0). An untracked one in tail mode is positioned at the end
  of the file and \<open>Offset\<close> becomes the size; otherwise it is positioned at 0 and
  \<open>Offset\<close> becomes 0. The position is decided once: any later open of the harvester
  that the first one returned leaves it unchanged and seeks to its \<open>Offset\<close>, and the
  loop of \<^verbatim>\<open>Harvest\<close> never clears \<open>IsTracked\<close>.
\<close>

theorem open_file_position:
  assumes "Path h \<noteq> ''-''" and "stat_ok s" and "regular s"
  shows "\<exists>f h' w'. open_file tail s h w = Returns (f, h', w') \<and> IsTracked h' \<and>
           (IsTracked h \<longrightarrow> h' = h \<and> pos f = nat (Offset h)) \<and>
           (\<not> IsTracked h \<and> tail \<longrightarrow>
              pos f = length (content s) \<and> Offset h' = int (length (content s))) \<and>
           (\<not> IsTracked h \<and> \<not> tail \<longrightarrow> pos f = 0 \<and> Offset h' = 0) \<and>
           (\<forall>s2 w2. stat_ok s2 \<and> regular s2 \<longrightarrow>
              (\<exists>f2 w3. open_file tail s2 h' w2 = Returns (f2, h', w3) \<and>
                        pos f2 = nat (Offset h'))) \<and>
           (\<forall>fs n st z z'. Harvest_loop fs tail n z = (st, z') \<and> IsTracked (hv z) \<longrightarrow>
              IsTracked (hv z'))"
proof -
  have kept: "\<forall>fs n st z z'. Harvest_loop fs tail n z = (st, z') \<and> IsTracked (hv z) \<longrightarrow>
                IsTracked (hv z')"
    using Harvest_loop_frame by blast
  from assms have "\<exists>f h' w'.
     open_file tail s h w = Returns (f, h', w') \<and> IsTracked h' \<and>
     (IsTracked h \<longrightarrow> h' = h \<and> pos f = nat (Offset h)) \<and>
     (\<not> IsTracked h \<and> tail \<longrightarrow>
        pos f = length (content s) \<and> Offset h' = int (length (content s))) \<and>
     (\<not> IsTracked h \<and> \<not> tail \<longrightarrow> pos f = 0 \<and> Offset h' = 0) \<and>
     (\<forall>s2 w2. stat_ok s2 \<and> regular s2 \<longrightarrow>
        (\<exists>f2 w3. open_file tail s2 h' w2 = Returns (f2, h', w3) \<and>
                  pos f2 = nat (Offset h')))"
    by (auto simp: open_file_def mustBeRegularFile_def Seek_def Let_def)
  with kept show ?thesis by blast
qed

theorem open_file_position_witness:
  "Path fresh \<noteq> ''-'' \<and> stat_ok (snap (''old'' @ [LF])) \<and> regular (snap (''old'' @ [LF])) \<and>
   (\<exists>f w'. open_file True (snap (''old'' @ [LF])) fresh epoch
             = Returns (f, fresh\<lparr>Offset := 4, IsTracked := True\<rparr>, w') \<and> pos f = 4)"
proof -
  have hyps: "Path fresh \<noteq> ''-''" "stat_ok (snap (''old'' @ [LF]))" "regular (snap (''old'' @ [LF]))"
    by (simp_all add: fresh_def snap_def)
  from open_file_position [OF hyps, of True epoch]
  obtain f h' w' where
    op: "open_file True (snap (''old'' @ [LF])) fresh epoch = Returns (f, h', w')" and
    p: "pos f = length (content (snap (''old'' @ [LF])))" and
    o: "Offset h' = int (length (content (snap (''old'' @ [LF]))))"
    by (auto simp: fresh_def)
  have "h' = fresh\<lparr>Offset := 4, IsTracked := True\<rparr>"
    using op by (simp add: open_file_def mustBeRegularFile_def Seek_def Let_def snap_def fresh_def)
  with op p hyps show ?thesis by (simp add: snap_def)
qed

subsection \<open>The events\<close>

text \<open>
  What an iteration sends. Take \<^verbatim>\<open>Harvest\<close> at any point of its loop (the state \<open>s\<close>
  reached from the initial state, with the events \<open>evs\<close> sent so far) and an iteration
  that sends an event. The event is the only one sent by the iteration and carries: the
  path of the harvester; the offset before it is advanced by the byte count of the line,
  which is the offset the harvester had when the iteration began once its position is
  decided; the number of events sent before plus one, so the numbers are 1, 2, 3, ...;
  the fields of the configuration; and the \<open>info\<close> of the snapshot observed by the last
  read of the iteration. Of the text this says only that it holds no line feed and that
  the byte count is its length plus one or two: whether a carriage return before the
  line feed is stripped depends on the reads, as the theorem after it shows.
\<close>

lemma Harvest_body_event:
  assumes run: "Harvest_loop fs tail n (Harvest_init h w outp) = (Running, s)"
    and step: "Harvest_body fs tail s = (st, s')"
    and emit: "out s' \<noteq> out s"
  shows "\<exists>evs t eol.
           out s = outp @ evs \<and>
           out s' = out s @
             [\<lparr>Source = Path h,
               ev_Offset = Offset (hv s') - int (length t + length eol),
               Line = length evs + 1,
               Text = Some t,
               ev_Fields = Fields (FileConfig h),
               fileinfo = Some \<lparr>Size = int (length (content (fs (reads (wld s') - 1)))),
                                 Regular = regular (fs (reads (wld s') - 1))\<rparr>\<rparr>] \<and>
           (positioned (hv s) \<longrightarrow> Offset (hv s') - int (length t + length eol) = Offset (hv s)) \<and>
           LF \<notin> set t \<and> (eol = [LF] \<or> eol = [CR, LF]) \<and>
           (\<exists>rest. buffer s @ rest = t @ eol)"
proof -
  let ?s0 = "Harvest_init h w outp"
  from Harvest_loop_events [OF run] obtain evs where
    evs: "out s = outp @ evs" "line s = length evs" and buf: "LF \<notin> set (buffer s)"
    by auto
  from Harvest_loop_frame [OF run] have fr: "Path (hv s) = Path h" "FileConfig (hv s) = FileConfig h"
    by simp_all
  show ?thesis
  proof (cases "readline fs tail (hv s) (wld s) (buffer s) read_timeout")
    case (Panics p)
    obtain hp wp bp where p: "p = (hp, wp, bp)" by (cases p) auto
    from Harvest_body_Panics [OF Panics [unfolded p]] step emit show ?thesis by simp
  next
    case (Returns res)
    obtain tx n err h1 w1 b where res: "res = ((tx, n, err), h1, w1, b)"
      by (cases res) auto
    note rl = Returns [unfolded res]
    show ?thesis
    proof (cases err)
      case (Some e)
      from Harvest_body_error [OF rl [unfolded Some]] step emit show ?thesis by simp
    next
      case None
      from readline_result [OF Returns buf]
      obtain t eol where t: "tx = Some t" "LF \<notin> set t" "eol = [LF] \<or> eol = [CR, LF]"
          "n = length t + length eol" "\<exists>rest. buffer s @ rest = t @ eol"
        and inf: "info h1 = Some \<lparr>Size = int (length (content (fs (reads w1 - 1)))),
                                  Regular = regular (fs (reads w1 - 1))\<rparr>"
        by (auto simp: line_result_def res None)
      note frl = readline_frame(1,2) [OF rl] readline_positioned(2) [OF rl]
      from Harvest_body_line [OF rl [unfolded None]] step
      have s': "s' = s\<lparr>hv := h1\<lparr>Offset := Offset h1 + int n\<rparr>, wld := w1, buffer := b,
                       line := line s + 1, last_read_time := now w1,
                       out := out s @ [\<lparr>Source = Path h1, ev_Offset = Offset h1,
                                         Line = line s + 1, Text = tx,
                                         ev_Fields = Fields (FileConfig h1),
                                         fileinfo = info h1\<rparr>]\<rparr>"
        by simp
      show ?thesis
        using evs t inf frl fr
        by (intro exI [of _ evs] exI [of _ t] exI [of _ eol]) (simp add: s')
    qed
  qed
qed

lemma Harvest_body_event_two_lines:
  "fst (Harvest_loop two_lines False 1 (Harvest_init fresh epoch [])) = Running \<and>
   out (snd (Harvest_body two_lines False
               (snd (Harvest_loop two_lines False 1 (Harvest_init fresh epoch [])))))
     = out (snd (Harvest_loop two_lines False 1 (Harvest_init fresh epoch []))) @
       [\<lparr>Source = ''/var/log/syslog'', ev_Offset = 4, Line = 2, Text = Some ''cd'',
         ev_Fields = [(''type'', ''syslog'')],
         fileinfo = Some \<lparr>Size = 9, Regular = True\<rparr>\<rparr>]"
proof -
  let ?r = "Harvest_loop two_lines False 1 (Harvest_init fresh epoch [])"
  let ?b = "Harvest_body two_lines False (snd ?r)"
  have st: "fst ?r = Running" by code_simp
  have emit: "out (snd ?b) \<noteq> out (snd ?r)" by code_simp
  have rd: "reads (wld (snd ?b)) = 2"
    and n: "length (out (snd ?r)) = 1"
    by code_simp+
  have txt': "Text (last (out (snd ?b))) = Some ''cd''" by code_simp
  have snap: "content (two_lines 1) = ''ab'' @ [CR, LF] @ ''cd'' @ [LF] @ ''ef''"
    "regular (two_lines 1)"
    by (simp_all add: two_lines_def script_def snap_def)
  have run: "?r = (Running, snd ?r)" using st by (metis prod.collapse)
  have step: "?b = (fst ?b, snd ?b)" by simp
  have p: "positioned (hv (snd ?r))" and o: "Offset (hv (snd ?r)) = 4" by code_simp+
  note concl = Harvest_body_event [OF run step emit]
  from concl txt' p o n rd snap st show ?thesis
    by (elim exE conjE) (simp add: fresh_def)
qed

text \<open>
  Claim C7 fails on the code in the text of the event. The file holds the line \<^verbatim>\<open>x\<close>
  and then \<^verbatim>\<open>cd\<close> ended by CR LF, whose line feed is written after the read that
  returned \<^verbatim>\<open>cd\<close> and the CR. The second event has the path, the offset 2 of the first
  byte of the line, the line number 2, the fields and the info of the read that
  completed the line, as the claim says, but its text is \<^verbatim>\<open>cd\<close> followed by the CR:
  one of the two newline characters is left in. The same file read when it is complete
  gives the text \<^verbatim>\<open>cd\<close>. The defect is that of claim C4: the carriage return is looked
  for in the last segment only.
\<close>

theorem event_text_keeps_split_cr:
  "content (crlf_late 2) = ''x'' @ [LF] @ ''cd'' @ [CR, LF] \<and>
   out (snd (Harvest crlf_late False 2 fresh epoch []))
     = [\<lparr>Source = ''/var/log/syslog'', ev_Offset = 0, Line = 1,
         Text = Some ''x'', ev_Fields = [(''type'', ''syslog'')],
         fileinfo = Some \<lparr>Size = 5, Regular = True\<rparr>\<rparr>,
        \<lparr>Source = ''/var/log/syslog'', ev_Offset = 2, Line = 2,
         Text = Some (''cd'' @ [CR]), ev_Fields = [(''type'', ''syslog'')],
         fileinfo = Some \<lparr>Size = 6, Regular = True\<rparr>\<rparr>] \<and>
   Offset (hv (snd (Harvest crlf_late False 2 fresh epoch []))) = 6 \<and>
   map Text (out (snd (Harvest crlf_whole False 2 fresh epoch []))) = [Some ''x'', Some ''cd'']"
  by code_simp

subsection \<open>The offset\<close>



subsection \<open>Failed reads\<close>



subsection \<open>Waiting at the end of the file\<close>



subsection \<open>Truncation while a partial line is buffered\<close>

text \<open>
  Claim C3 fails on the code. \<^verbatim>\<open>Harvest\<close> sets the offset to 0 on a truncation and goes
  round again, but the buffer is a local of \<^verbatim>\<open>Harvest\<close> that only a line read that
  returns a line resets. The file holds \<^verbatim>\<open>hello world\<close>, unterminated, when it is
  truncated and rewritten. After the iteration that reports the truncation the offset is
  0 and the buffer still holds \<^verbatim>\<open>hello world\<close>; the next read seeks to the offset plus
  the length of the buffer, byte 11 of the new file, and the event sent is
  \<^verbatim>\<open>hello worldJKL\<close>: bytes from before the truncation come first in a line after it,
  and the lines \<^verbatim>\<open>ab\<close> and \<^verbatim>\<open>cd\<close> of the new file are skipped.
\<close>

theorem truncation_keeps_stale_buffer:
  "fst (Harvest truncation_script False 1 fresh epoch []) = Running \<and>
   Offset (hv (snd (Harvest truncation_script False 1 fresh epoch []))) = 0 \<and>
   buffer (snd (Harvest truncation_script False 1 fresh epoch [])) = ''hello world'' \<and>
   out (snd (Harvest truncation_script False 2 fresh epoch []))
     = [\<lparr>Source = ''/var/log/syslog'', ev_Offset = 0, Line = 1,
         Text = Some ''hello worldJKL'', ev_Fields = [(''type'', ''syslog'')],
         fileinfo = Some \<lparr>Size = 15, Regular = True\<rparr>\<rparr>] \<and>
   Offset (hv (snd (Harvest truncation_script False 2 fresh epoch []))) = 15"
  by code_simp

subsection \<open>Line terminators\<close>

text \<open>
  Claim C4 fails on the code. The carriage return is looked for in the segment that
  the last read returned, not in the buffer. When the writer has written \<^verbatim>\<open>ab\<close> and
  the CR at the time of one read and the line feed only at the time of the next, the
  last segment is the line feed alone, one byte is stripped and the text is \<^verbatim>\<open>ab\<close>
  followed by CR; the same line ended by a line feed alone gives \<^verbatim>\<open>ab\<close>.
\<close>

theorem split_crlf_keeps_cr:
  "map Text (out (snd (Harvest split_crlf False 1 fresh epoch []))) = [Some (''ab'' @ [CR])] \<and>
   map Text (out (snd (Harvest split_lf False 1 fresh epoch []))) = [Some ''ab'']"
  by code_simp

end
